theory Spec2Isabelle
  imports Complex_Main
begin

section \<open>PPG denoising demo (BLOG/dspblog.py): a shallow embedding\<close>

text \<open>
  The script works on NumPy arrays of IEEE doubles.  Finite samples are modelled as
  exact reals (rounding is not modelled); the special values that the quality metric
  can produce (infinities, NaN) are modelled explicitly by \<open>float64\<close>.  The module
  global \<open>fs\<close> (1000 in the script) is read by several functions and is passed
  explicitly as their first argument; \<open>nyquist\<close> is derived from it as in the script.
  Exceptions raised by Python, NumPy or SciPy are values of \<open>py_error\<close>.
\<close>

subsection \<open>Errors and the module globals\<close>

datatype py_error = ValueError | ZeroDivisionError | LinAlgError

text \<open>Python's true division \<open>x / y\<close> on Python numbers raises on a zero divisor.\<close>

definition py_div :: "real \<Rightarrow> real \<Rightarrow> py_error + real" where
  "py_div x y = (if y = 0 then Inl ZeroDivisionError else Inr (x / y))"

text \<open>\<open>fs = 1000\<close>, \<open>nyquist = fs / 2\<close> (lines 7, 8).\<close>

definition fs_default :: real where
  "fs_default = 1000"

definition nyquist :: "real \<Rightarrow> real" where
  "nyquist fs = fs / 2"

subsection \<open>Spectrum analysis (compute_spectrum, lines 45 to 55)\<close>

text \<open>
  \<open>scipy.fft.fft\<close> of a one-dimensional real array: bin \<open>k\<close> is
  \<open>\<Sum>n. x[n] * exp (-2 pi i k n / N)\<close>; an empty array is rejected with ValueError.
\<close>

definition dft_bin :: "real list \<Rightarrow> nat \<Rightarrow> complex" where
  "dft_bin x k =
     (\<Sum>n<length x. complex_of_real (x ! n) *
        cis (- (2 * pi * real k * real n / real (length x))))"

definition fft :: "real list \<Rightarrow> py_error + complex list" where
  "fft x = (if length x = 0 then Inl ValueError
            else Inr (map (dft_bin x) [0..<length x]))"

text \<open>
  \<open>scipy.fft.fftfreq(n, d)\<close>: \<open>val = 1.0 / (n * d)\<close>, then the integers
  \<open>0, ..., (n-1)//2\<close> followed by \<open>-(n//2), ..., -1\<close>, each times \<open>val\<close>.
\<close>

definition fftfreq :: "nat \<Rightarrow> real \<Rightarrow> py_error + real list" where
  "fftfreq n d =
     (case py_div 1 (real n * d) of
        Inl e \<Rightarrow> Inl e
      | Inr val \<Rightarrow>
          (let N = (int n - 1) div 2 + 1;
               p1 = [0 .. N - 1];
               p2 = [- (int n div 2) .. -1]
           in Inr (map (\<lambda>j. real_of_int j * val) (p1 @ p2))))"

text \<open>Boolean-mask indexing \<open>a[mask]\<close> for a mask of the array's length.\<close>

definition mask_select :: "bool list \<Rightarrow> 'a list \<Rightarrow> 'a list" where
  "mask_select msk a = map snd (filter fst (zip msk a))"

definition compute_spectrum :: "real \<Rightarrow> real list \<Rightarrow> py_error + (real list \<times> real list)" where
  "compute_spectrum fs data =
     (let N = length data in
      case fft data of
        Inl e \<Rightarrow> Inl e
      | Inr yf \<Rightarrow>
     (case py_div 1 fs of
        Inl e \<Rightarrow> Inl e
      | Inr d \<Rightarrow>
     (case fftfreq N d of
        Inl e \<Rightarrow> Inl e
      | Inr xf \<Rightarrow>
          (let positive_freq_idx = map (\<lambda>f. f \<ge> 0) xf;
               freqs = mask_select positive_freq_idx xf in
           case py_div 2 (real N) of
             Inl e \<Rightarrow> Inl e
           | Inr c \<Rightarrow>
               Inr (freqs, map (\<lambda>y. c * cmod y) (mask_select positive_freq_idx yf))))))"


text \<open>
  The integer label \<open>fftfreq\<close> gives bin \<open>k\<close> of an \<open>n\<close>-point transform
  (the bin's frequency is the label times \<open>fs / n\<close>), and the bins whose label, hence
  frequency, is non-negative.
\<close>

definition bin_label :: "nat \<Rightarrow> nat \<Rightarrow> int" where
  "bin_label n k = (if int k \<le> (int n - 1) div 2 then int k else int k - int n)"

definition nonneg_bins :: "nat \<Rightarrow> nat list" where
  "nonneg_bins n = filter (\<lambda>k. 0 \<le> bin_label n k) [0..<n]"

subsection \<open>Signal generation (generate_ppg_signal, lines 10 to 25)\<close>

text \<open>Python's \<open>int(x)\<close> on a float truncates towards zero.\<close>

definition py_int :: "real \<Rightarrow> int" where
  "py_int x = (if 0 \<le> x then \<lfloor>x\<rfloor> else \<lceil>x\<rceil>)"

text \<open>
  \<open>numpy.linspace(start, stop, num)\<close> with the default \<open>endpoint=True\<close>: \<open>num\<close>
  evenly spaced samples over the closed interval, so the step is
  \<open>(stop - start) / (num - 1)\<close>; a negative \<open>num\<close> is rejected with ValueError and
  \<open>num = 1\<close> gives \<open>[start]\<close>.
\<close>

definition linspace :: "real \<Rightarrow> real \<Rightarrow> int \<Rightarrow> py_error + real list" where
  "linspace start stop num =
     (if num < 0 then Inl ValueError
      else if num = 1 then Inr [start]
      else Inr (map (\<lambda>i. start + real i * ((stop - start) / real_of_int (num - 1)))
                  [0..<nat num]))"

text \<open>
  The draws of \<open>np.random.randn(len(t))\<close> are an input of the model: \<open>z i\<close> is the
  \<open>i\<close>-th standard normal sample.  The result is the triple \<open>(t, noisy, clean)\<close>.
\<close>

definition clean_sample :: "real \<Rightarrow> real" where
  "clean_sample t = sin (2 * pi * 1.25 * t) + 0.3 * sin (4 * pi * 1.25 * t)"

definition noisy_sample :: "real \<Rightarrow> real \<Rightarrow> real" where
  "noisy_sample t zi =
     (let baseline_drift = 0.5 * sin (2 * pi * 0.25 * t);
          motion = 0.3 * sin (2 * pi * 0.1 * t);
          powerline = 0.2 * sin (2 * pi * 50 * t);
          hf_noise = 0.1 * zi
      in clean_sample t + baseline_drift + motion + powerline + hf_noise)"

definition generate_ppg_signal ::
  "real \<Rightarrow> (nat \<Rightarrow> real) \<Rightarrow> real \<Rightarrow> py_error + (real list \<times> real list \<times> real list)" where
  "generate_ppg_signal fs z duration =
     (case linspace 0 duration (py_int (fs * duration)) of
        Inl e \<Rightarrow> Inl e
      | Inr t \<Rightarrow>
          (let clean = map clean_sample t;
               noisy = map (\<lambda>i. noisy_sample (t ! i) (z i)) [0..<length t]
           in Inr (t, noisy, clean)))"

subsection \<open>Quality metric (demonstrate_filtering, lines 115 to 119 and 128 to 130)\<close>

text \<open>
  A NumPy double: a finite value (an exact real here) or one of the IEEE special values.
  Signed zeros are not distinguished; the only zero divisor below is a variance, which is
  \<open>+0.0\<close>.  NumPy scalar arithmetic does not raise on division by zero or on the
  logarithm of zero: it warns and returns the IEEE result.
\<close>

datatype float64 = Fin real | PosInf | NegInf | NaN

fun f_div :: "float64 \<Rightarrow> float64 \<Rightarrow> float64" where
  "f_div (Fin x) (Fin y) =
     (if y = 0 then (if x = 0 then NaN else if 0 < x then PosInf else NegInf)
      else Fin (x / y))"
| "f_div NaN _ = NaN"
| "f_div _ NaN = NaN"
| "f_div (Fin x) _ = Fin 0"
| "f_div PosInf (Fin y) = (if 0 \<le> y then PosInf else NegInf)"
| "f_div NegInf (Fin y) = (if 0 \<le> y then NegInf else PosInf)"
| "f_div _ _ = NaN"

fun f_log10 :: "float64 \<Rightarrow> float64" where
  "f_log10 (Fin x) = (if 0 < x then Fin (log 10 x) else if x = 0 then NegInf else NaN)"
| "f_log10 PosInf = PosInf"
| "f_log10 _ = NaN"

fun f_mul :: "float64 \<Rightarrow> float64 \<Rightarrow> float64" where
  "f_mul (Fin x) (Fin y) = Fin (x * y)"
| "f_mul NaN _ = NaN"
| "f_mul _ NaN = NaN"
| "f_mul (Fin x) PosInf = (if x = 0 then NaN else if 0 < x then PosInf else NegInf)"
| "f_mul (Fin x) NegInf = (if x = 0 then NaN else if 0 < x then NegInf else PosInf)"
| "f_mul PosInf (Fin y) = (if y = 0 then NaN else if 0 < y then PosInf else NegInf)"
| "f_mul NegInf (Fin y) = (if y = 0 then NaN else if 0 < y then NegInf else PosInf)"
| "f_mul PosInf PosInf = PosInf"
| "f_mul NegInf NegInf = PosInf"
| "f_mul _ _ = NegInf"

fun f_sub :: "float64 \<Rightarrow> float64 \<Rightarrow> float64" where
  "f_sub (Fin x) (Fin y) = Fin (x - y)"
| "f_sub NaN _ = NaN"
| "f_sub _ NaN = NaN"
| "f_sub (Fin x) PosInf = NegInf"
| "f_sub (Fin x) NegInf = PosInf"
| "f_sub PosInf (Fin y) = PosInf"
| "f_sub NegInf (Fin y) = NegInf"
| "f_sub PosInf NegInf = PosInf"
| "f_sub NegInf PosInf = NegInf"
| "f_sub _ _ = NaN"

text \<open>
  \<open>a - b\<close> on one-dimensional arrays: elementwise when the lengths agree; an array of
  length one is broadcast against the other; any other pair of lengths raises ValueError.
\<close>

definition np_subtract :: "real list \<Rightarrow> real list \<Rightarrow> py_error + real list" where
  "np_subtract a b =
     (if length a = length b then Inr (map2 (-) a b)
      else if length b = 1 then Inr (map (\<lambda>x. x - hd b) a)
      else if length a = 1 then Inr (map (\<lambda>y. hd a - y) b)
      else Inl ValueError)"

text \<open>
  \<open>numpy.var\<close> (population variance, \<open>ddof = 0\<close>): the mean of the squared deviations
  from the mean; NaN (with a warning) for an empty array.
\<close>

definition np_mean :: "real list \<Rightarrow> real" where
  "np_mean x = sum_list x / real (length x)"

definition np_var :: "real list \<Rightarrow> float64" where
  "np_var x =
     (if x = [] then NaN
      else Fin (sum_list (map (\<lambda>v. \<bar>v - np_mean x\<bar> ^ 2) x) / real (length x)))"

text \<open>
  Lines 116 to 119 and the difference printed at line 130, as a function of the three
  buffers: \<open>(snr_before, snr_after, snr_after - snr_before)\<close>.
\<close>

definition snr_db :: "real list \<Rightarrow> real list \<Rightarrow> float64" where
  "snr_db clean noise = f_mul (Fin 10) (f_log10 (f_div (np_var clean) (np_var noise)))"

definition snr_report ::
  "real list \<Rightarrow> real list \<Rightarrow> real list \<Rightarrow> py_error + (float64 \<times> float64 \<times> float64)" where
  "snr_report clean noisy filtered =
     (case np_subtract noisy clean of
        Inl e \<Rightarrow> Inl e
      | Inr noise_before \<Rightarrow>
     (case np_subtract filtered clean of
        Inl e \<Rightarrow> Inl e
      | Inr noise_after \<Rightarrow>
          (let snr_before = snr_db clean noise_before;
               snr_after = snr_db clean noise_after
           in Inr (snr_before, snr_after, f_sub snr_after snr_before))))"

text \<open>
  The quantities the metric is specified with, over the reals: the population variance
  of a buffer, the elementwise residual against the clean reference, and \<open>10 log10 r\<close>
  of a non-negative ratio, which is minus infinity at zero.
\<close>

definition variance :: "real list \<Rightarrow> real" where
  "variance x = (\<Sum>v\<leftarrow>x. (v - sum_list x / real (length x))\<^sup>2) / real (length x)"

definition residual :: "real list \<Rightarrow> real list \<Rightarrow> real list" where
  "residual a clean = map (\<lambda>i. a ! i - clean ! i) [0..<length clean]"

definition decibels :: "real \<Rightarrow> float64" where
  "decibels r = (if r = 0 then NegInf else Fin (10 * log 10 r))"

text \<open>NumPy's broadcasting rule for two one-dimensional arrays.\<close>

definition broadcastable :: "'a list \<Rightarrow> 'b list \<Rightarrow> bool" where
  "broadcastable a b = (length a = length b \<or> length a = 1 \<or> length b = 1)"

subsection \<open>SciPy: IIR filter design (scipy.signal.iirnotch, scipy.signal.butter)\<close>

text \<open>
  The library routines the script calls are embedded from SciPy's documented algorithms,
  over exact reals and complex numbers.  Filter coefficients are the pair \<open>(b, a)\<close> of
  numerator and denominator coefficient lists.
\<close>

type_synonym coeffs = "real list \<times> real list"

text \<open>
  \<open>iirnotch(w0, Q)\<close> with the default \<open>fs = 2.0\<close>.  The range check admits both end
  points; \<open>bw = w0 / Q\<close> is a division of Python floats and raises on \<open>Q = 0\<close>; no
  check is made on the sign of \<open>Q\<close>.  The gain \<open>1.0 / (1.0 + beta)\<close> is NumPy
  arithmetic and never raises; the model is exact where \<open>1 + beta\<close> is not zero.
\<close>

definition iirnotch :: "real \<Rightarrow> real \<Rightarrow> py_error + coeffs" where
  "iirnotch w0 Q =
     (if w0 > 1 \<or> w0 < 0 then Inl ValueError
      else case py_div w0 Q of
        Inl e \<Rightarrow> Inl e
      | Inr bw0 \<Rightarrow>
          (let bw = bw0 * pi;
               w = w0 * pi;
               beta = tan (bw / 2);
               gain = 1 / (1 + beta);
               b = map (\<lambda>c. gain * c) [1, - 2 * cos w, 1];
               a = [1, - 2 * gain * cos w, 2 * gain - 1]
           in Inr (b, a)))"

text \<open>
  \<open>numpy.poly\<close>: the coefficients, highest power first, of the monic polynomial with
  the given roots, built by convolving with \<open>[1, -r]\<close> for each root \<open>r\<close>.
\<close>

definition convolve_root :: "'a::comm_ring_1 list \<Rightarrow> 'a \<Rightarrow> 'a list" where
  "convolve_root c r = map2 (-) (c @ [0]) (map (\<lambda>v. r * v) (0 # c))"

definition np_poly :: "'a::comm_ring_1 list \<Rightarrow> 'a list" where
  "np_poly rs = foldl convolve_root [1] rs"

text \<open>
  \<open>buttap(N)\<close>: the analog Butterworth prototype, no zeros, poles
  \<open>-exp (i pi m / (2 N))\<close> for \<open>m = -N+1, -N+3, ..., N-1\<close>, gain 1.  The order
  must be a non-negative integer; order 0 is accepted and has no poles.
\<close>

definition buttap :: "int \<Rightarrow> py_error + (complex list \<times> complex list \<times> real)" where
  "buttap N =
     (if N < 0 then Inl ValueError
      else Inr ([],
                map (\<lambda>j. - cis (pi * real_of_int (- N + 1 + 2 * int j) / real_of_int (2 * N)))
                  [0..<nat N],
                1))"

text \<open>
  The zero-pole-gain transformations.  The relative degree \<open>len p - len z\<close> is never
  negative on the path from \<open>buttap\<close>, so the library's error for an improper transfer
  function cannot arise.
\<close>

definition lp2lp_zpk ::
  "complex list \<Rightarrow> complex list \<Rightarrow> real \<Rightarrow> real \<Rightarrow> complex list \<times> complex list \<times> real" where
  "lp2lp_zpk z p k wo =
     (let degree = length p - length z
      in (map (\<lambda>x. complex_of_real wo * x) z,
          map (\<lambda>x. complex_of_real wo * x) p,
          k * wo ^ degree))"

definition lp2hp_zpk ::
  "complex list \<Rightarrow> complex list \<Rightarrow> real \<Rightarrow> real \<Rightarrow> complex list \<times> complex list \<times> real" where
  "lp2hp_zpk z p k wo =
     (let degree = length p - length z
      in (map (\<lambda>x. complex_of_real wo / x) z @ replicate degree 0,
          map (\<lambda>x. complex_of_real wo / x) p,
          k * Re (prod_list (map uminus z) / prod_list (map uminus p))))"

definition bilinear_zpk ::
  "complex list \<Rightarrow> complex list \<Rightarrow> real \<Rightarrow> real \<Rightarrow> complex list \<times> complex list \<times> real" where
  "bilinear_zpk z p k fs =
     (let degree = length p - length z;
          fs2 = complex_of_real (2 * fs)
      in (map (\<lambda>x. (fs2 + x) / (fs2 - x)) z @ replicate degree (- 1),
          map (\<lambda>x. (fs2 + x) / (fs2 - x)) p,
          k * Re (prod_list (map (\<lambda>x. fs2 - x) z) / prod_list (map (\<lambda>x. fs2 - x) p))))"

text \<open>
  \<open>zpk2tf\<close>: \<open>b = k * poly z\<close>, \<open>a = poly p\<close>.  NumPy returns the real parts when the
  roots are closed under conjugation, which holds for the zeros and poles built here.
\<close>

definition zpk2tf :: "complex list \<Rightarrow> complex list \<Rightarrow> real \<Rightarrow> coeffs" where
  "zpk2tf z p k = (map (\<lambda>c. k * Re c) (np_poly z), map Re (np_poly p))"

datatype btype = lowpass | highpass

text \<open>
  \<open>butter(N, Wn, btype)\<close>, that is \<open>iirfilter\<close> with \<open>ftype = 'butter'\<close>, digital, output
  \<open>'ba'\<close>: the critical frequency must satisfy \<open>0 < Wn < 1\<close>; the prototype is
  pre-warped with \<open>fs = 2\<close>, transformed to the band type and mapped by the bilinear
  transform.
\<close>

definition butter :: "int \<Rightarrow> real \<Rightarrow> btype \<Rightarrow> py_error + coeffs" where
  "butter N Wn bt =
     (if Wn \<le> 0 then Inl ValueError
      else case buttap N of
        Inl e \<Rightarrow> Inl e
      | Inr (z, p, k) \<Rightarrow>
          if Wn \<ge> 1 then Inl ValueError
          else
            (let fs = 2;
                 warped = 2 * fs * tan (pi * Wn / fs);
                 (z1, p1, k1) = (case bt of
                                   lowpass \<Rightarrow> lp2lp_zpk z p k warped
                                 | highpass \<Rightarrow> lp2hp_zpk z p k warped);
                 (z2, p2, k2) = bilinear_zpk z1 p1 k1 fs
             in Inr (zpk2tf z2 p2 k2)))"

subsection \<open>SciPy: zero-phase filtering (scipy.signal.filtfilt)\<close>

text \<open>
  \<open>lfilter(b, a, x, zi=zi)\<close>: the direct form II transposed difference equations with
  the coefficients normalised by \<open>a[0]\<close> and padded to a common length \<open>n\<close>; the state
  has \<open>n - 1\<close> entries.  A zero \<open>a[0]\<close> and a state of the wrong length are rejected.
  The result is the output and the final state.
\<close>

fun lfilter_run ::
  "real list \<Rightarrow> real list \<Rightarrow> real list \<Rightarrow> real list \<Rightarrow> real list \<times> real list" where
  "lfilter_run b a z [] = ([], z)"
| "lfilter_run b a z (x # xs) =
     (let y = hd b * x + (case z of [] \<Rightarrow> 0 | z0 # _ \<Rightarrow> z0);
          z' = map (\<lambda>((bi, ai), zi). bi * x + zi - ai * y)
                 (zip (zip (tl b) (tl a)) (tl z @ [0]));
          (ys, zf) = lfilter_run b a z' xs
      in (y # ys, zf))"

definition pad_to :: "nat \<Rightarrow> real list \<Rightarrow> real list" where
  "pad_to n c = c @ replicate (n - length c) 0"

definition lfilter ::
  "real list \<Rightarrow> real list \<Rightarrow> real list \<Rightarrow> real list \<Rightarrow> py_error + (real list \<times> real list)" where
  "lfilter b a x zi =
     (if a = [] \<or> hd a = 0 then Inl ValueError
      else
        (let n = max (length a) (length b);
             b' = map (\<lambda>v. v / hd a) (pad_to n b);
             a' = map (\<lambda>v. v / hd a) (pad_to n a)
         in if length zi \<noteq> n - 1 then Inl ValueError
            else Inr (lfilter_run b' a' zi x)))"

text \<open>
  \<open>lfilter_zi(b, a)\<close>: the state of the step response's steady state, the solution of
  \<open>(I - A) zi = B\<close> for the transposed companion matrix \<open>A\<close> of \<open>a\<close> and
  \<open>B = b[1:] - a[1:] * b[0]\<close>.  Leading zeros of \<open>a\<close> are dropped first (an all-zero
  \<open>a\<close> leads to an error in \<open>filtfilt\<close> and is an error here); fewer than two
  coefficients are rejected by \<open>companion\<close> with ValueError; the system is singular,
  and \<open>numpy.linalg.solve\<close> raises LinAlgError, exactly when the normalised
  coefficients of \<open>a\<close> sum to zero.  Otherwise the solution is the closed form given in
  SciPy's source.
\<close>

fun strip_zeros :: "real list \<Rightarrow> real list" where
  "strip_zeros (x # y # ys) = (if x = 0 then strip_zeros (y # ys) else x # y # ys)"
| "strip_zeros xs = xs"

definition lfilter_zi :: "real list \<Rightarrow> real list \<Rightarrow> py_error + real list" where
  "lfilter_zi b a0 =
     (let a1 = strip_zeros a0 in
      if a1 = [] \<or> hd a1 = 0 then Inl ValueError
      else
        (let n = max (length a1) (length b);
             b' = map (\<lambda>v. v / hd a1) (pad_to n b);
             a' = map (\<lambda>v. v / hd a1) (pad_to n a1)
         in if n < 2 then Inl ValueError
            else if sum_list a' = 0 then Inl LinAlgError
            else
              (let B = map2 (\<lambda>bi ai. bi - ai * hd b') (tl b') (tl a');
                   zi0 = sum_list B / sum_list a'
               in Inr (map (\<lambda>k. sum_list (take (k + 1) a') * zi0 - sum_list (take k B))
                         [0..<n - 1]))))"

text \<open>
  \<open>odd_ext(x, n)\<close>: \<open>n\<close> samples are added at each end by reflecting the signal through
  its end points.
\<close>

definition odd_ext :: "real list \<Rightarrow> nat \<Rightarrow> real list" where
  "odd_ext x n =
     (let left_end = hd x;
          left_ext = rev (take n (drop 1 x));
          right_end = last x;
          right_ext = take n (drop 1 (rev x))
      in map (\<lambda>v. 2 * left_end - v) left_ext @ x @ map (\<lambda>v. 2 * right_end - v) right_ext)"

text \<open>
  \<open>filtfilt(b, a, x)\<close> with the defaults \<open>padtype = 'odd'\<close>, \<open>padlen = None\<close>,
  \<open>method = 'pad'\<close>: the pad length is \<open>3 * max (len a) (len b)\<close>, the input must be
  longer than that; the padded signal is filtered forwards, reversed, filtered again
  and reversed, each pass starting from \<open>zi\<close> scaled by its first sample; the padding
  is then cut off.
\<close>

definition filtfilt :: "real list \<Rightarrow> real list \<Rightarrow> real list \<Rightarrow> py_error + real list" where
  "filtfilt b a x =
     (let ntaps = max (length a) (length b);
          edge = ntaps * 3
      in if length x \<le> edge then Inl ValueError
         else
           (let ext = odd_ext x edge in
            case lfilter_zi b a of
              Inl e \<Rightarrow> Inl e
            | Inr zi \<Rightarrow>
           (let x0 = hd ext in
            case lfilter b a ext (map (\<lambda>v. v * x0) zi) of
              Inl e \<Rightarrow> Inl e
            | Inr (y, zf) \<Rightarrow>
           (let y0 = last y in
            case lfilter b a (rev y) (map (\<lambda>v. v * y0) zi) of
              Inl e \<Rightarrow> Inl e
            | Inr (y', zf') \<Rightarrow>
                (let yr = rev y'
                 in Inr (drop edge (take (length yr - edge) yr)))))))"

subsection \<open>The three filters (lines 27 to 43) and the cascade (lines 64 to 66)\<close>

text \<open>
  Each filter function computes the normalised frequency and designs the coefficients
  (its first two statements, the design functions below), then applies them with
  \<open>filtfilt\<close> (its return statement).
\<close>

definition notch_design :: "real \<Rightarrow> real \<Rightarrow> real \<Rightarrow> py_error + coeffs" where
  "notch_design fs notch_freq quality_factor =
     (case py_div notch_freq (nyquist fs) of
        Inl e \<Rightarrow> Inl e
      | Inr w0 \<Rightarrow> iirnotch w0 quality_factor)"

definition notch_filter :: "real \<Rightarrow> real list \<Rightarrow> real \<Rightarrow> real \<Rightarrow> py_error + real list" where
  "notch_filter fs data notch_freq quality_factor =
     (case notch_design fs notch_freq quality_factor of
        Inl e \<Rightarrow> Inl e
      | Inr (b, a) \<Rightarrow> filtfilt b a data)"

definition high_pass_design :: "real \<Rightarrow> real \<Rightarrow> int \<Rightarrow> py_error + coeffs" where
  "high_pass_design fs cutoff_freq order =
     (case py_div cutoff_freq (nyquist fs) of
        Inl e \<Rightarrow> Inl e
      | Inr normalized_cutoff \<Rightarrow> butter order normalized_cutoff highpass)"

definition high_pass_filter :: "real \<Rightarrow> real list \<Rightarrow> real \<Rightarrow> int \<Rightarrow> py_error + real list" where
  "high_pass_filter fs data cutoff_freq order =
     (case high_pass_design fs cutoff_freq order of
        Inl e \<Rightarrow> Inl e
      | Inr (b, a) \<Rightarrow> filtfilt b a data)"

definition low_pass_design :: "real \<Rightarrow> real \<Rightarrow> int \<Rightarrow> py_error + coeffs" where
  "low_pass_design fs cutoff_freq order =
     (case py_div cutoff_freq (nyquist fs) of
        Inl e \<Rightarrow> Inl e
      | Inr normalized_cutoff \<Rightarrow> butter order normalized_cutoff lowpass)"

definition low_pass_filter :: "real \<Rightarrow> real list \<Rightarrow> real \<Rightarrow> int \<Rightarrow> py_error + real list" where
  "low_pass_filter fs data cutoff_freq order =
     (case low_pass_design fs cutoff_freq order of
        Inl e \<Rightarrow> Inl e
      | Inr (b, a) \<Rightarrow> filtfilt b a data)"

text \<open>
  The cascade of \<open>demonstrate_filtering\<close>, with the defaults the calls leave implicit
  (\<open>quality_factor = 30\<close>, \<open>order = 4\<close>).
\<close>

definition filter_cascade :: "real \<Rightarrow> real list \<Rightarrow> py_error + real list" where
  "filter_cascade fs noisy =
     (case notch_filter fs noisy 50 30 of
        Inl e \<Rightarrow> Inl e
      | Inr step1 \<Rightarrow>
     (case high_pass_filter fs step1 0.5 4 of
        Inl e \<Rightarrow> Inl e
      | Inr step2 \<Rightarrow> low_pass_filter fs step2 10 4))"

subsection \<open>The specification's vocabulary for the filter stages\<close>

text \<open>
  A filter specification is a tagged variant: a notch with centre frequency and quality
  factor, or a high-pass or low-pass with cutoff frequency and order.  \<open>design\<close>
  dispatches a specification to the design statements of the matching filter function,
  \<open>apply_coeffs\<close> is the application of designed coefficients, and \<open>run_stages\<close> runs a
  list of stages in order, each designing its coefficients and applying them to the
  output of the stage before; the first error ends the run.
\<close>

datatype filter_spec = Notch real real | HighPass real int | LowPass real int

fun design :: "real \<Rightarrow> filter_spec \<Rightarrow> py_error + coeffs" where
  "design fs (Notch center_freq quality_factor) = notch_design fs center_freq quality_factor"
| "design fs (HighPass cutoff_freq order) = high_pass_design fs cutoff_freq order"
| "design fs (LowPass cutoff_freq order) = low_pass_design fs cutoff_freq order"

definition apply_coeffs :: "coeffs \<Rightarrow> real list \<Rightarrow> py_error + real list" where
  "apply_coeffs c buffer = filtfilt (fst c) (snd c) buffer"

fun run_stages :: "real \<Rightarrow> filter_spec list \<Rightarrow> real list \<Rightarrow> py_error + real list" where
  "run_stages fs [] buffer = Inr buffer"
| "run_stages fs (s # ss) buffer =
     (case design fs s of
        Inl e \<Rightarrow> Inl e
      | Inr c \<Rightarrow>
          (case apply_coeffs c buffer of
             Inl e \<Rightarrow> Inl e
           | Inr out \<Rightarrow> run_stages fs ss out))"

text \<open>
  The specification's invariant on a filter specification, and the specifications the
  design code accepts.
\<close>

fun spec_valid :: "real \<Rightarrow> filter_spec \<Rightarrow> bool" where
  "spec_valid fs (Notch f q) = (0 < f \<and> f < nyquist fs \<and> 0 < q)"
| "spec_valid fs (HighPass f n) = (0 < f \<and> f < nyquist fs \<and> 1 \<le> n)"
| "spec_valid fs (LowPass f n) = (0 < f \<and> f < nyquist fs \<and> 1 \<le> n)"

fun design_accepts :: "real \<Rightarrow> filter_spec \<Rightarrow> bool" where
  "design_accepts fs (Notch f q) = (0 \<le> f \<and> f \<le> nyquist fs \<and> q \<noteq> 0)"
| "design_accepts fs (HighPass f n) = (0 < f \<and> f < nyquist fs \<and> 0 \<le> n)"
| "design_accepts fs (LowPass f n) = (0 < f \<and> f < nyquist fs \<and> 0 \<le> n)"

subsection \<open>The demonstration (demonstrate_filtering, lines 57 to 131)\<close>

text \<open>
  The computation of \<open>demonstrate_filtering\<close> without its plotting and printing: the
  generated signal, the cascade, the two spectra and the quality metric.  The result
  collects what the script plots and prints.
\<close>

record demo_result =
  demo_filtered :: "real list"
  demo_spectrum_noisy :: "real list \<times> real list"
  demo_spectrum_filtered :: "real list \<times> real list"
  demo_snr :: "float64 \<times> float64 \<times> float64"

definition demonstrate_filtering :: "real \<Rightarrow> (nat \<Rightarrow> real) \<Rightarrow> py_error + demo_result" where
  "demonstrate_filtering fs z =
     (case generate_ppg_signal fs z 10 of
        Inl e \<Rightarrow> Inl e
      | Inr (t, noisy, clean) \<Rightarrow>
     (case filter_cascade fs noisy of
        Inl e \<Rightarrow> Inl e
      | Inr flt \<Rightarrow>
     (case compute_spectrum fs noisy of
        Inl e \<Rightarrow> Inl e
      | Inr sn \<Rightarrow>
     (case compute_spectrum fs flt of
        Inl e \<Rightarrow> Inl e
      | Inr sf \<Rightarrow>
     (case snr_report clean noisy flt of
        Inl e \<Rightarrow> Inl e
      | Inr r \<Rightarrow>
          Inr \<lparr>demo_filtered = flt, demo_spectrum_noisy = sn,
               demo_spectrum_filtered = sf, demo_snr = r\<rparr>)))))"

section \<open>Spectrum analysis: results\<close>

lemma mask_select_append:
  "length m1 = length a1 \<Longrightarrow>
   mask_select (m1 @ m2) (a1 @ a2) = mask_select m1 a1 @ mask_select m2 a2"
  by (simp add: mask_select_def)

lemma mask_select_all:
  "length m = length a \<Longrightarrow> \<forall>b \<in> set m. b \<Longrightarrow> mask_select m a = a"
  unfolding mask_select_def
  by (induction m a rule: list_induct2) auto

lemma mask_select_none:
  "\<forall>b \<in> set m. \<not> b \<Longrightarrow> mask_select m a = []"
  unfolding mask_select_def
  by (induction m arbitrary: a) (auto simp: zip_Cons1 split: list.splits)

lemma mask_select_prefix:
  assumes "length m1 = length a1" "\<forall>b \<in> set m1. b" "\<forall>b \<in> set m2. \<not> b"
  shows "mask_select (m1 @ m2) (a1 @ a2) = a1"
  using assms by (simp add: mask_select_append mask_select_all mask_select_none)


lemma fftfreq_val:
  assumes "0 < n" "d \<noteq> 0"
  shows "fftfreq n d = Inr (map (\<lambda>k. real k / (real n * d)) [0..<(n + 1) div 2] @
                         map (\<lambda>j. real_of_int j / (real n * d)) [- (int n div 2) .. -1])"
proof -
  have "(int n - 1) div 2 + 1 - 1 = int ((n + 1) div 2) - 1" using assms by linarith
  moreover have "map (\<lambda>j. real_of_int j * (1 / (real n * d))) [0 .. int m - 1] = map (\<lambda>k. real k / (real n * d)) [0..<m]" for m
    by (induction m) (simp_all add: upto_rec2)
  ultimately show ?thesis using assms
    by (simp add: fftfreq_def py_div_def Let_def)
qed



lemma upto_neg_as_upt:
  "[- int m .. -1] = map (\<lambda>k. int k - int (a + m)) [a..<a + m]"
proof (induction m)
  case 0
  then show ?case by simp
next
  case (Suc m)
  have "[- int (Suc m) .. -1] = (- int (Suc m)) # [- int m .. -1]"
    by (subst upto_rec1) simp_all
  also have "\<dots> = (int a - int (a + Suc m)) # map (\<lambda>k. int k - int (a + m)) [a..<a + m]"
    using Suc by simp
  also have "map (\<lambda>k. int k - int (a + m)) [a..<a + m] = map (\<lambda>k. int k - int (a + Suc m)) [Suc a..<Suc a + m]"
    by (simp add: map_Suc_upt[symmetric] del: map_Suc_upt upt_Suc)
  finally show ?case
    by (simp add: upt_conv_Cons del: upt_Suc)
qed

lemma fftfreq_labels:
  assumes "0 < n" "d \<noteq> 0"
  shows "fftfreq n d = Inr (map (\<lambda>k. real_of_int (bin_label n k) / (real n * d)) [0..<n])"
proof -
  let ?M = "(n + 1) div 2"
  have n: "?M + n div 2 = n" by linarith
  have split: "[0..<n] = [0..<?M] @ [?M..<?M + n div 2]"
    using upt_add_eq_append[of 0 ?M "n div 2"] unfolding n by simp
  have a: "map (\<lambda>k. real k / (real n * d)) [0..<?M] = map (\<lambda>k. real_of_int (bin_label n k) / (real n * d)) [0..<?M]"
    by (rule map_cong) (auto simp: bin_label_def)
  have "[- (int n div 2) .. -1] = [- int (n div 2) .. -1]" by (simp add: of_nat_div)
  also have "\<dots> = map (\<lambda>k. int k - int (?M + n div 2)) [?M..<?M + n div 2]"
    by (rule upto_neg_as_upt)
  also have "\<dots> = map (bin_label n) [?M..<?M + n div 2]"
    unfolding n by (rule map_cong) (auto simp: bin_label_def)
  finally have b: "[- (int n div 2) .. -1] = map (bin_label n) [?M..<?M + n div 2]" .
  have "map (\<lambda>k. real_of_int (bin_label n k) / (real n * d)) [0..<n] =
        map (\<lambda>k. real_of_int (bin_label n k) / (real n * d)) ([0..<?M] @ [?M..<?M + n div 2])"
    using split by simp
  moreover have "\<forall>k\<in>{0..<Suc n div 2}. real k = real_of_int (bin_label n k)"
    by (auto simp: bin_label_def)
  ultimately show ?thesis
    unfolding fftfreq_val[OF assms] b
    by (simp add: o_def)
qed

lemma nonneg_bins_eq: "nonneg_bins n = [0..<(n + 1) div 2]"
proof -
  let ?M = "(n + 1) div 2"
  have n: "?M + n div 2 = n" by linarith
  have split: "[0..<n] = [0..<?M] @ [?M..<n]"
    using upt_add_eq_append[of 0 ?M "n div 2"] unfolding n by simp
  have "filter (\<lambda>k. 0 \<le> bin_label n k) [0..<?M] = [0..<?M]"
    by (rule filter_True) (auto simp: bin_label_def)
  moreover have "filter (\<lambda>k. 0 \<le> bin_label n k) [?M..<n] = []"
    by (auto simp: bin_label_def filter_empty_conv)
  ultimately show ?thesis unfolding nonneg_bins_def by (subst split) simp
qed


lemma compute_spectrum_eq:
  assumes "data \<noteq> []" "0 < fs"
  shows "compute_spectrum fs data =
           Inr (map (\<lambda>k. real k * fs / real (length data)) [0..<(length data + 1) div 2],
                map (\<lambda>k. 2 / real (length data) * cmod (dft_bin data k)) [0..<(length data + 1) div 2])"
proof -
  let ?N = "length data"
  let ?M = "(?N + 1) div 2"
  define xs1 where "xs1 = map (\<lambda>k. real k / (real ?N * (1 / fs))) [0..<?M]"
  define xs2 where "xs2 = map (\<lambda>j. real_of_int j / (real ?N * (1 / fs))) [- (int ?N div 2) .. -1]"
  define ys1 where "ys1 = map (dft_bin data) [0..<?M]"
  define ys2 where "ys2 = map (dft_bin data) [?M..<?N]"
  have N: "0 < ?N" using assms by simp
  have ff: "fftfreq ?N (1 / fs) = Inr (xs1 @ xs2)"
    using fftfreq_val[OF N, of "1 / fs"] assms by (simp add: xs1_def xs2_def)
  have n: "?M + ?N div 2 = ?N" by linarith
  have ysplit: "map (dft_bin data) [0..<?N] = ys1 @ ys2"
    using upt_add_eq_append[of 0 ?M "?N div 2"] unfolding n ys1_def ys2_def
    by (simp flip: map_append)
  have m1: "\<forall>b \<in> set (map (\<lambda>f. 0 \<le> f) xs1). b"
    using assms by (auto simp: xs1_def)
  have neg: "real_of_int j / (real ?N * (1 / fs)) < 0" if "j \<le> -1" for j
  proof -
    have "real_of_int j < 0" using that by simp
    moreover have "0 < real ?N * (1 / fs)" using assms N by simp
    ultimately show ?thesis by (rule divide_neg_pos)
  qed
  have m2: "\<forall>b \<in> set (map (\<lambda>f. 0 \<le> f) xs2). \<not> b"
    using neg by (auto simp: xs2_def not_le simp del: times_divide_eq_right)
  have sel1: "mask_select (map (\<lambda>f. 0 \<le> f) (xs1 @ xs2)) (xs1 @ xs2) = xs1"
    unfolding map_append by (rule mask_select_prefix[OF _ m1 m2]) simp
  have sel2: "mask_select (map (\<lambda>f. 0 \<le> f) (xs1 @ xs2)) (ys1 @ ys2) = ys1"
    unfolding map_append by (rule mask_select_prefix[OF _ m1 m2]) (simp add: xs1_def ys1_def)
  have "compute_spectrum fs data = Inr (xs1, map (\<lambda>y. 2 / real ?N * cmod y) ys1)"
    using assms N
    by (simp add: compute_spectrum_def fft_def py_div_def ff ysplit sel1 sel2 Let_def
          del: map_append)
  then show ?thesis
    by (simp add: xs1_def ys1_def o_def)
qed


text \<open>
  Claim C3.  For a non-empty buffer of length \<open>N\<close> (and a positive sample rate) the
  analyzer succeeds and returns exactly the DFT bins whose \<open>fftfreq\<close> frequency is
  non-negative, in order: the frequency of a retained bin \<open>k\<close> is its label times
  \<open>fs / N\<close> and its magnitude is \<open>2 / N\<close> times the modulus of the DFT value of
  bin \<open>k\<close>.
\<close>

theorem compute_spectrum_nonneg_bins:
  assumes "data \<noteq> []" and "0 < fs"
  shows "fft data = Inr (map (dft_bin data) [0..<length data]) \<and>
         fftfreq (length data) (1 / fs) =
           Inr (map (\<lambda>k. real_of_int (bin_label (length data) k) * fs / real (length data))
                  [0..<length data]) \<and>
         compute_spectrum fs data =
           Inr (map (\<lambda>k. real_of_int (bin_label (length data) k) * fs / real (length data))
                  (nonneg_bins (length data)),
                map (\<lambda>k. 2 / real (length data) * cmod (dft_bin data k))
                  (nonneg_bins (length data)))"
proof -
  let ?N = "length data"
  have N: "0 < ?N" using assms by simp
  have d: "1 / fs \<noteq> 0" using assms by simp
  have lab: "\<forall>k \<in> set [0..<(?N + 1) div 2]. bin_label ?N k = int k"
    by (auto simp: bin_label_def)
  have "fft data = Inr (map (dft_bin data) [0..<?N])"
    using N by (simp add: fft_def)
  moreover have "fftfreq ?N (1 / fs) =
      Inr (map (\<lambda>k. real_of_int (bin_label ?N k) * fs / real ?N) [0..<?N])"
    using fftfreq_labels[OF N d] by simp
  moreover have "compute_spectrum fs data =
      Inr (map (\<lambda>k. real_of_int (bin_label ?N k) * fs / real ?N) (nonneg_bins ?N),
           map (\<lambda>k. 2 / real ?N * cmod (dft_bin data k)) (nonneg_bins ?N))"
    using lab unfolding compute_spectrum_eq[OF assms] nonneg_bins_eq by simp
  ultimately show ?thesis by simp
qed

theorem compute_spectrum_nonneg_bins_witness:
  "[1, 0, -1, 0] \<noteq> ([] :: real list) \<and> (0::real) < 1000 \<and>
   compute_spectrum 1000 [1, 0, -1, 0] = Inr ([0, 250], [0, 1])"
proof -
  have nb: "nonneg_bins 4 = [0, 1]"
    by (simp add: nonneg_bins_eq upt_conv_Cons)
  have l0: "bin_label 4 0 = 0" and l1: "bin_label 4 (Suc 0) = 1"
    by (simp_all add: bin_label_def)
  have c: "cis (- pi) = -1"
    by (simp add: complex_eq_iff)
  have b0: "dft_bin [1, 0, -1, 0] 0 = 0"
    by (simp add: dft_bin_def lessThan_nat_numeral lessThan_Suc numeral_eq_Suc)
  have b1: "dft_bin [1, 0, -1, 0] (Suc 0) = 2"
    by (simp add: dft_bin_def lessThan_Suc numeral_eq_Suc c)
  have len: "length [1, 0, -1, 0::real] = 4"
    by simp
  show ?thesis
    using compute_spectrum_nonneg_bins[of "[1, 0, -1, 0]" 1000, unfolded len]
    by (simp add: nb l0 l1 b0 b1)
qed

text \<open>
  Claim C10.  For a non-empty buffer of even length \<open>N\<close> the analyzer returns
  \<open>N / 2\<close> bins and the Nyquist frequency \<open>fs / 2\<close> is not among them: \<open>fftfreq\<close>
  labels bin \<open>N / 2\<close> with \<open>- fs / 2\<close>, which the mask drops.  For odd \<open>N\<close> it
  returns \<open>(N + 1) / 2\<close> bins.
\<close>

theorem compute_spectrum_bin_count:
  assumes "data \<noteq> []" and "0 < fs"
  shows "\<exists>freqs mags xf.
           compute_spectrum fs data = Inr (freqs, mags) \<and>
           fftfreq (length data) (1 / fs) = Inr xf \<and>
           length mags = length freqs \<and>
           (even (length data) \<longrightarrow>
              length freqs = length data div 2 \<and>
              nyquist fs \<notin> set freqs \<and>
              xf ! (length data div 2) = - nyquist fs) \<and>
           (odd (length data) \<longrightarrow> length freqs = (length data + 1) div 2)"
proof -
  let ?N = "length data"
  let ?freqs = "map (\<lambda>k. real k * fs / real ?N) [0..<(?N + 1) div 2]"
  let ?mags = "map (\<lambda>k. 2 / real ?N * cmod (dft_bin data k)) [0..<(?N + 1) div 2]"
  let ?xf = "map (\<lambda>k. real_of_int (bin_label ?N k) / (real ?N * (1 / fs))) [0..<?N]"
  have N: "0 < ?N" using assms by simp
  have d: "1 / fs \<noteq> 0" using assms by simp
  have cs: "compute_spectrum fs data = Inr (?freqs, ?mags)"
    by (rule compute_spectrum_eq[OF assms])
  have ff: "fftfreq ?N (1 / fs) = Inr ?xf"
    by (rule fftfreq_labels[OF N d])
  have ev: "length ?freqs = ?N div 2 \<and> nyquist fs \<notin> set ?freqs \<and>
            ?xf ! (?N div 2) = - nyquist fs" if e: "even ?N"
  proof -
    from e obtain m where m: "?N = 2 * m" by (auto elim: evenE)
    with N have mpos: "0 < m" by simp
    have len: "length ?freqs = ?N div 2" using m by simp
    have notin: "nyquist fs \<notin> set ?freqs"
    proof
      assume "nyquist fs \<in> set ?freqs"
      then obtain k where k: "k < (?N + 1) div 2" and eq: "nyquist fs = real k * fs / real ?N"
        by auto
      from k m have km: "k < m" by simp
      from eq assms N have "real ?N = 2 * real k"
        by (simp add: nyquist_def field_simps)
      then have "?N = 2 * k" by linarith
      with m km show False by simp
    qed
    have "bin_label ?N (?N div 2) = - int m"
      using m mpos by (simp add: bin_label_def)
    then have "?xf ! (?N div 2) = - nyquist fs"
      using m mpos assms by (simp add: nyquist_def field_simps)
    with len notin show ?thesis by simp
  qed
  have od: "length ?freqs = (?N + 1) div 2"
    by simp
  show ?thesis
    using cs ff ev od by (intro exI[of _ ?freqs] exI[of _ ?mags] exI[of _ ?xf]) simp
qed

theorem compute_spectrum_bin_count_witness:
  "\<exists>freqs mags xf.
     compute_spectrum 1000 [1, 0, -1, 0] = Inr (freqs, mags) \<and>
     fftfreq 4 (1 / 1000) = Inr xf \<and>
     length freqs = 2 \<and> length mags = 2 \<and> nyquist 1000 \<notin> set freqs \<and>
     xf ! 2 = - nyquist 1000"
proof -
  have len: "length [1, 0, -1, 0::real] = 4"
    by simp
  have e: "even (4::nat)" "[1, 0, -1, 0] \<noteq> ([]::real list)" "(0::real) < 1000"
    by simp_all
  from compute_spectrum_bin_count[of "[1, 0, -1, 0]" 1000, unfolded len, OF e(2,3)]
  show ?thesis using e(1) by force
qed

section \<open>Signal generation: results\<close>

lemma generate_ppg_signal_default:
  "generate_ppg_signal 1000 z 10 =
     Inr (map (\<lambda>i. real i * (10 / 9999)) [0..<10000],
          map (\<lambda>i. noisy_sample (real i * (10 / 9999)) (z i)) [0..<10000],
          map (\<lambda>i. clean_sample (real i * (10 / 9999))) [0..<10000])"
proof -
  have n: "py_int (1000 * 10) = 10000"
    by (simp add: py_int_def)
  have t: "linspace 0 10 10000 = Inr (map (\<lambda>i. real i * (10 / 9999)) [0..<10000])"
    by (simp add: linspace_def)
  show ?thesis
    unfolding generate_ppg_signal_def n t
    by (simp add: Let_def o_def cong: map_cong)
qed

lemma clean_sample_gap: "clean_sample (1 / 1000) < clean_sample (10 / 9999)"
proof -
  have pi4: "pi < 4" using pi_less_4 .
  have pi0: "0 < pi" by simp
  have a: "sin (2 * pi * 1.25 * (1 / 1000)) < sin (2 * pi * 1.25 * (10 / 9999))"
    by (rule sin_monotone_2pi) (use pi0 in \<open>simp_all add: field_simps\<close>)
  have b: "sin (4 * pi * 1.25 * (1 / 1000)) < sin (4 * pi * 1.25 * (10 / 9999))"
    by (rule sin_monotone_2pi) (use pi0 in \<open>simp_all add: field_simps\<close>)
  from a b show ?thesis
    unfolding clean_sample_def by linarith
qed

text \<open>
  Claim C1, evaluated at the script's own call \<open>generate_ppg_signal(duration=10)\<close> with
  \<open>fs = 1000\<close>.  The buffers have length 10000, but \<open>linspace\<close> includes the end
  point, so the time of sample 1 is \<open>10 / 9999\<close> and not \<open>1 / 1000\<close>, and the clean
  sample there is strictly larger than the value
  \<open>sin (2 pi f0 t) + 0.3 sin (4 pi f0 t)\<close> at \<open>t = 1 / fs\<close>.
\<close>

theorem generate_clean_off_grid:
  "\<exists>t noisy clean.
     generate_ppg_signal 1000 z 10 = Inr (t, noisy, clean) \<and>
     length clean = 10000 \<and>
     t ! 1 = 10 / 9999 \<and>
     sin (2 * pi * 1.25 * (1 / 1000)) + 0.3 * sin (4 * pi * 1.25 * (1 / 1000)) < clean ! 1"
proof -
  have "clean_sample (1 / 1000) < clean_sample (10 / 9999)"
    by (rule clean_sample_gap)
  then show ?thesis
    unfolding generate_ppg_signal_default
    by (simp add: clean_sample_def)
qed

section \<open>Quality metric: results\<close>

lemma np_var_variance: "x \<noteq> [] \<Longrightarrow> np_var x = Fin (variance x)"
  by (simp add: np_var_def variance_def np_mean_def)

lemma variance_nonneg: "0 \<le> variance x"
  unfolding variance_def by (intro divide_nonneg_nonneg sum_list_nonneg) auto

lemma np_subtract_same_length:
  "length a = length b \<Longrightarrow> np_subtract a b = Inr (residual a b)"
  unfolding np_subtract_def residual_def
  by (auto intro!: nth_equalityI)

lemma snr_db_finite:
  assumes "clean \<noteq> []" "noise \<noteq> []" "variance noise \<noteq> 0"
  shows "snr_db clean noise = decibels (variance clean / variance noise)"
proof -
  have c: "0 \<le> variance clean" and n: "0 < variance noise"
    using variance_nonneg[of clean] variance_nonneg[of noise] assms(3) by simp_all
  show ?thesis
  proof (cases "variance clean = 0")
    case True
    then show ?thesis
      using assms n by (simp add: snr_db_def np_var_variance decibels_def)
  next
    case False
    with c have "0 < variance clean" by simp
    with n have "0 < variance clean / variance noise" by simp
    then show ?thesis
      using assms n False by (simp add: snr_db_def np_var_variance decibels_def)
  qed
qed

text \<open>
  Claim C4.  For non-empty buffers of equal length whose residuals have non-zero
  variance, the metric is computed without error and returns
  \<open>SNR_before = 10 log10 (var clean / var (noisy - clean))\<close>,
  \<open>SNR_after = 10 log10 (var clean / var (filtered - clean))\<close> and their difference
  \<open>SNR_after - SNR_before\<close>; the values are finite reals when \<open>var clean\<close> is not
  zero (at \<open>var clean = 0\<close> both logarithms are minus infinity, as in IEEE arithmetic).
\<close>

theorem snr_report_formula:
  assumes "length noisy = length clean" and "length filtered = length clean"
    and "clean \<noteq> []"
    and "variance (residual noisy clean) \<noteq> 0"
    and "variance (residual filtered clean) \<noteq> 0"
  shows "\<exists>snr_before snr_after improvement.
           snr_report clean noisy filtered = Inr (snr_before, snr_after, improvement) \<and>
           snr_before = decibels (variance clean / variance (residual noisy clean)) \<and>
           snr_after = decibels (variance clean / variance (residual filtered clean)) \<and>
           improvement = f_sub snr_after snr_before \<and>
           (variance clean \<noteq> 0 \<longrightarrow>
              snr_before = Fin (10 * log 10 (variance clean / variance (residual noisy clean))) \<and>
              snr_after = Fin (10 * log 10 (variance clean / variance (residual filtered clean))) \<and>
              improvement =
                Fin (10 * log 10 (variance clean / variance (residual filtered clean)) -
                     10 * log 10 (variance clean / variance (residual noisy clean))))"
proof -
  have r1: "residual noisy clean \<noteq> []" and r2: "residual filtered clean \<noteq> []"
    using assms(3) by (simp_all add: residual_def)
  have s1: "np_subtract noisy clean = Inr (residual noisy clean)"
    and s2: "np_subtract filtered clean = Inr (residual filtered clean)"
    using assms(1,2) by (simp_all add: np_subtract_same_length)
  have b: "snr_db clean (residual noisy clean) =
             decibels (variance clean / variance (residual noisy clean))"
    by (rule snr_db_finite[OF assms(3) r1 assms(4)])
  have a: "snr_db clean (residual filtered clean) =
             decibels (variance clean / variance (residual filtered clean))"
    by (rule snr_db_finite[OF assms(3) r2 assms(5)])
  show ?thesis
    using assms(4,5)
    by (simp add: snr_report_def s1 s2 a b Let_def decibels_def)
qed

theorem snr_report_formula_witness:
  "snr_report [0, 2] [1, 2] [0, 4] =
     Inr (Fin (10 * log 10 4), Fin 0, Fin (0 - 10 * log 10 4))"
proof -
  have v0: "variance [0, 2] = 1"
    by (simp add: variance_def power2_eq_square)
  have r1: "residual [1, 2] [0, 2] = [1, 0]" and r2: "residual [0, 4] [0, 2] = [0, 2]"
    by (simp_all add: residual_def upt_conv_Cons)
  have v1: "variance [1, 0] = 1 / 4"
    by (simp add: variance_def power2_eq_square)
  from snr_report_formula[of "[1, 2]" "[0, 2]" "[0, 4]"]
  show ?thesis
    by (simp add: r1 r2 v0 v1)
qed

lemma np_subtract_Inl:
  "np_subtract a b = Inl e \<longleftrightarrow> e = ValueError \<and> \<not> broadcastable a b"
  by (auto simp: np_subtract_def broadcastable_def)

lemma snr_db_zero_noise:
  assumes "clean \<noteq> []" "noise \<noteq> []" "variance noise = 0"
  shows "snr_db clean noise = (if variance clean = 0 then NaN else PosInf)"
  using assms variance_nonneg[of clean]
  by (simp add: snr_db_def np_var_variance)

text \<open>
  Claim C6 fails on the code in both halves.  With buffers of lengths 2, 1 and 2 the
  length-one buffer is broadcast and the metric is computed without error; with
  \<open>noisy = clean\<close> the residual has zero variance and the metric returns plus infinity
  instead of reporting an error.
\<close>

theorem snr_report_counterexample:
  "snr_report [0, 1] [1] [1, 0] =
     Inr (Fin 0, Fin (10 * log 10 (1 / 4)), Fin (10 * log 10 (1 / 4) - 0)) \<and>
   snr_report [0, 1] [0, 1] [1, 0] =
     Inr (PosInf, Fin (10 * log 10 (1 / 4)), NegInf)"
proof -
  have m: "np_mean [0, 1] = 1 / 2" "np_mean [1, 0] = 1 / 2" "np_mean [1, -1] = 0"
      "np_mean [0, 0] = 0"
    by (simp_all add: np_mean_def)
  have v: "np_var [0, 1] = Fin (1 / 4)" "np_var [1, 0] = Fin (1 / 4)" "np_var [1, -1] = Fin 1"
      "np_var [0, 0] = Fin 0"
    by (simp_all add: np_var_def m power2_eq_square)
  have s: "np_subtract [1] [0, 1] = Inr [1, 0]" "np_subtract [1, 0] [0, 1] = Inr [1, -1]"
      "np_subtract [0, 1] [0, 1] = Inr [0, 0]"
    by (simp_all add: np_subtract_def)
  show ?thesis
    by (simp add: snr_report_def snr_db_def s v Let_def)
qed


lemma np_subtract_Inr:
  "broadcastable a b \<Longrightarrow> \<exists>r. np_subtract a b = Inr r"
  by (auto simp: np_subtract_def broadcastable_def)

lemma snr_report_Inl:
  "snr_report clean noisy filtered = Inl e \<longleftrightarrow>
     e = ValueError \<and> \<not> (broadcastable noisy clean \<and> broadcastable filtered clean)"
proof (cases "np_subtract noisy clean")
  case (Inl e1)
  then have "e1 = ValueError" "\<not> broadcastable noisy clean"
    by (simp_all add: np_subtract_Inl)
  with Inl show ?thesis
    by (auto simp: snr_report_def)
next
  case (Inr r1)
  then have b1: "broadcastable noisy clean"
    using np_subtract_Inl[of noisy clean ValueError]
    by (cases "broadcastable noisy clean") (simp_all add: np_subtract_def broadcastable_def)
  show ?thesis
  proof (cases "np_subtract filtered clean")
    case (Inl e2)
    then have "e2 = ValueError" "\<not> broadcastable filtered clean"
      by (simp_all add: np_subtract_Inl)
    with Inl Inr show ?thesis
      by (auto simp: snr_report_def)
  next
    case r2: (Inr r2)
    then have b2: "broadcastable filtered clean"
      by (cases "broadcastable filtered clean") (simp_all add: np_subtract_def broadcastable_def)
    from Inr r2 b1 b2 show ?thesis
      by (simp add: snr_report_def Let_def)
  qed
qed

text \<open>
  Claim C6 as amended.  The metric fails only with NumPy's broadcasting ValueError, and
  exactly when, in one of the two subtractions, the operands have different lengths and
  neither has length one.  For non-empty buffers of equal length it always returns, and
  a residual of zero variance gives an SNR of plus infinity (NaN when the variance of
  the clean buffer is zero too).
\<close>

theorem snr_report_failure_cases:
  "(\<forall>e. snr_report clean noisy filtered = Inl e \<longleftrightarrow>
          e = ValueError \<and> \<not> (broadcastable noisy clean \<and> broadcastable filtered clean)) \<and>
   (length noisy = length clean \<and> length filtered = length clean \<and> clean \<noteq> [] \<longrightarrow>
      (\<exists>snr_before snr_after improvement.
          snr_report clean noisy filtered = Inr (snr_before, snr_after, improvement) \<and>
          (variance (residual noisy clean) = 0 \<longrightarrow>
             snr_before = (if variance clean = 0 then NaN else PosInf)) \<and>
          (variance (residual filtered clean) = 0 \<longrightarrow>
             snr_after = (if variance clean = 0 then NaN else PosInf))))"
proof (intro conjI allI impI)
  fix e
  show "snr_report clean noisy filtered = Inl e \<longleftrightarrow>
          e = ValueError \<and> \<not> (broadcastable noisy clean \<and> broadcastable filtered clean)"
    by (rule snr_report_Inl)
next
  assume h: "length noisy = length clean \<and> length filtered = length clean \<and> clean \<noteq> []"
  then have c: "clean \<noteq> []" by simp
  from h have r1: "residual noisy clean \<noteq> []" and r2: "residual filtered clean \<noteq> []"
    by (simp_all add: residual_def)
  have s1: "np_subtract noisy clean = Inr (residual noisy clean)"
    and s2: "np_subtract filtered clean = Inr (residual filtered clean)"
    using h by (simp_all add: np_subtract_same_length)
  have rep: "snr_report clean noisy filtered =
      Inr (snr_db clean (residual noisy clean), snr_db clean (residual filtered clean),
           f_sub (snr_db clean (residual filtered clean)) (snr_db clean (residual noisy clean)))"
    by (simp add: snr_report_def s1 s2 Let_def)
  have z1: "variance (residual noisy clean) = 0 \<longrightarrow>
      snr_db clean (residual noisy clean) = (if variance clean = 0 then NaN else PosInf)"
    using snr_db_zero_noise[OF c r1] by blast
  have z2: "variance (residual filtered clean) = 0 \<longrightarrow>
      snr_db clean (residual filtered clean) = (if variance clean = 0 then NaN else PosInf)"
    using snr_db_zero_noise[OF c r2] by blast
  show "\<exists>snr_before snr_after improvement.
          snr_report clean noisy filtered = Inr (snr_before, snr_after, improvement) \<and>
          (variance (residual noisy clean) = 0 \<longrightarrow>
             snr_before = (if variance clean = 0 then NaN else PosInf)) \<and>
          (variance (residual filtered clean) = 0 \<longrightarrow>
             snr_after = (if variance clean = 0 then NaN else PosInf))"
    unfolding rep using z1 z2 by blast
qed


theorem snr_report_failure_cases_witness:
  "snr_report [0, 1] [0, 1, 2] [1, 0] = Inl ValueError \<and>
   (\<exists>snr_after improvement.
      snr_report [0, 1] [0, 1] [1, 0] = Inr (PosInf, snr_after, improvement))"
proof -
  have v0: "variance [0, 1] = 1 / 4"
    by (simp add: variance_def power2_eq_square)
  have r: "residual [0, 1] [0, 1] = [0, 0]"
    by (simp add: residual_def upt_conv_Cons)
  have v1: "variance [0, 0] = 0"
    by (simp add: variance_def)
  have nb: "\<not> broadcastable [0, 1, 2::real] [0, 1::real]"
    by (simp add: broadcastable_def)
  have len: "length [0, 1::real] = length [0, 1::real] \<and>
             length [1, 0::real] = length [0, 1::real] \<and> [0, 1::real] \<noteq> []"
    by simp
  note a = snr_report_failure_cases[of "[0, 1]" "[0, 1, 2]" "[1, 0]", THEN conjunct1, rule_format,
      of ValueError]
  note b = snr_report_failure_cases[of "[0, 1]" "[0, 1]" "[1, 0]", THEN conjunct2, rule_format,
      OF len]
  have "snr_report [0, 1] [0, 1, 2] [1, 0] = Inl ValueError"
    using a nb by blast
  moreover have "\<exists>snr_after improvement.
      snr_report [0, 1] [0, 1] [1, 0] = Inr (PosInf, snr_after, improvement)"
    using b unfolding r v0 v1 by auto
  ultimately show ?thesis by blast
qed

section \<open>Filter design and zero-phase filtering: results\<close>

subsection \<open>lfilter and filtfilt: lengths\<close>

lemma lfilter_run_length:
  "lfilter_run b a z x = (y, zf) \<Longrightarrow> length y = length x"
proof (induction x arbitrary: z y zf)
  case Nil
  then show ?case by simp
next
  case (Cons x xs)
  then show ?case
    by (auto simp: Let_def split: prod.splits)
qed

lemma lfilter_Inr_iff:
  "(\<exists>r. lfilter b a x zi = Inr r) \<longleftrightarrow>
     a \<noteq> [] \<and> hd a \<noteq> 0 \<and> length zi = max (length a) (length b) - 1"
  by (auto simp: lfilter_def Let_def)

lemma lfilter_length:
  "lfilter b a x zi = Inr (y, zf) \<Longrightarrow> length y = length x"
  by (auto simp: lfilter_def Let_def lfilter_run_length split: if_splits)

lemma lfilter_zi_length:
  "lfilter_zi b a = Inr zi \<Longrightarrow> length zi = max (length (strip_zeros a)) (length b) - 1"
  by (auto simp: lfilter_zi_def Let_def split: if_splits)

lemma strip_zeros_id: "a \<noteq> [] \<Longrightarrow> hd a \<noteq> 0 \<Longrightarrow> strip_zeros a = a"
  by (cases a rule: strip_zeros.cases) auto

lemma odd_ext_length:
  "n < length x \<Longrightarrow> length (odd_ext x n) = length x + 2 * n"
  by (simp add: odd_ext_def Let_def)

lemma filtfilt_length:
  assumes "filtfilt b a x = Inr y"
  shows "length y = length x"
proof -
  let ?edge = "max (length a) (length b) * 3"
  from assms have len: "?edge < length x"
    by (auto simp: filtfilt_def Let_def split: if_splits)
  from assms len obtain zi y1 zf1 y2 zf2 where
    zi: "lfilter_zi b a = Inr zi"
    and f1: "lfilter b a (odd_ext x ?edge) (map (\<lambda>v. v * hd (odd_ext x ?edge)) zi) = Inr (y1, zf1)"
    and f2: "lfilter b a (rev y1) (map (\<lambda>v. v * last y1) zi) = Inr (y2, zf2)"
    and y: "y = drop ?edge (take (length (rev y2) - ?edge) (rev y2))"
    by (auto simp: filtfilt_def Let_def split: if_splits sum.splits prod.splits)
  have "length y1 = length x + 2 * ?edge"
    using lfilter_length[OF f1] odd_ext_length[OF len] by simp
  then have "length y2 = length x + 2 * ?edge"
    using lfilter_length[OF f2] by simp
  then show ?thesis
    unfolding y by simp
qed

subsection \<open>Polynomials from roots\<close>

lemma convolve_root_length: "length (convolve_root c r) = length c + 1"
  by (simp add: convolve_root_def)

lemma convolve_root_hd: "c \<noteq> [] \<Longrightarrow> hd (convolve_root c r) = hd c"
  by (cases c) (simp_all add: convolve_root_def)

lemma sum_list_map2_diff:
  "length xs = length ys \<Longrightarrow>
   sum_list (map2 (-) xs ys) = sum_list xs - (sum_list ys :: 'a::comm_ring_1)"
  by (induction xs ys rule: list_induct2) simp_all

lemma convolve_root_sum:
  "sum_list (convolve_root c r) = (1 - r) * sum_list c"
proof -
  have "sum_list (convolve_root c r) = sum_list (c @ [0]) - sum_list (map (\<lambda>v. r * v) (0 # c))"
    unfolding convolve_root_def by (rule sum_list_map2_diff) simp
  also have "\<dots> = sum_list c - r * sum_list c"
    by (simp add: sum_list_const_mult)
  finally show ?thesis by (simp add: algebra_simps)
qed

lemma foldl_convolve_root_props:
  "c \<noteq> [] \<Longrightarrow>
   length (foldl convolve_root c rs) = length c + length rs \<and>
   hd (foldl convolve_root c rs) = hd c \<and>
   sum_list (foldl convolve_root c rs) = prod_list (map (\<lambda>r. 1 - r) rs) * sum_list c"
proof (induction rs arbitrary: c)
  case Nil
  then show ?case by simp
next
  case (Cons r rs)
  have ne: "convolve_root c r \<noteq> []"
    using convolve_root_length[of c r] by (metis Suc_eq_plus1 length_0_conv nat.distinct(1))
  from Cons.IH[OF ne] Cons.prems show ?case
    by (simp add: convolve_root_length convolve_root_hd convolve_root_sum algebra_simps)
qed

lemma np_poly_length: "length (np_poly rs) = length rs + 1"
  using foldl_convolve_root_props[of "[1]" rs] by (simp add: np_poly_def)

lemma np_poly_hd: "hd (np_poly rs) = 1"
  using foldl_convolve_root_props[of "[1]" rs] by (simp add: np_poly_def)

lemma np_poly_sum: "sum_list (np_poly rs) = prod_list (map (\<lambda>r. 1 - r) rs)"
  using foldl_convolve_root_props[of "[1]" rs] by (simp add: np_poly_def)

lemma np_poly_nonempty: "np_poly rs \<noteq> []"
  using np_poly_length[of rs] by (metis Suc_eq_plus1 length_0_conv nat.distinct(1))

lemma sum_list_map_Re: "sum_list (map Re cs) = Re (sum_list cs)"
  by (induction cs) simp_all

lemma hd_map_Re_np_poly: "hd (map Re (np_poly rs)) = 1"
  using np_poly_hd[of rs] np_poly_nonempty[of rs] by (simp add: hd_map)


subsection \<open>Conjugate-symmetric root lists\<close>

lemma cnj_prod_list: "cnj (prod_list xs) = prod_list (map cnj xs)"
  by (induction xs) simp_all

lemma conj_symmetric_map:
  assumes "map cnj ps = rev ps" and "\<And>x. cnj (h x) = h (cnj x)"
  shows "map cnj (map h ps) = rev (map h ps)"
proof -
  have "map cnj (map h ps) = map h (map cnj ps)"
    using assms(2) by (simp add: o_def)
  then show ?thesis
    using assms(1) by (simp add: rev_map)
qed

lemma conj_symmetric_prod_real:
  assumes "map cnj ps = rev ps"
  shows "Im (prod_list ps) = 0"
proof -
  have "cnj (prod_list ps) = prod_list (rev ps)"
    using assms by (simp add: cnj_prod_list)
  then have "cnj (prod_list ps) = prod_list ps"
    by (simp add: prod_list.rev)
  then show ?thesis
    by (metis Reals_cnj_iff complex_is_Real_iff)
qed

lemma butter_angles_symmetric:
  fixes N :: int
  defines "p0 \<equiv> map (\<lambda>j. - cis (pi * real_of_int (- N + 1 + 2 * int j) / real_of_int (2 * N)))
                    [0..<nat N]"
  shows "map cnj p0 = rev p0"
proof (rule nth_equalityI)
  show "length (map cnj p0) = length (rev p0)" by simp
next
  fix i assume "i < length (map cnj p0)"
  then have i: "i < nat N" by (simp add: p0_def)
  then have Npos: "0 < N" by simp
  have idx: "nat N - Suc i < nat N" using i by simp
  have "rev p0 ! i = p0 ! (nat N - Suc i)"
    using i by (simp add: rev_nth p0_def)
  also have "\<dots> = - cis (pi * real_of_int (- N + 1 + 2 * int (nat N - Suc i)) / real_of_int (2 * N))"
    using idx by (simp add: p0_def)
  also have "- N + 1 + 2 * int (nat N - Suc i) = - (- N + 1 + 2 * int i)"
    using i by (simp add: of_nat_diff)
  also have "- cis (pi * real_of_int (- (- N + 1 + 2 * int i)) / real_of_int (2 * N)) =
             cnj (- cis (pi * real_of_int (- N + 1 + 2 * int i) / real_of_int (2 * N)))"
  proof -
    have "pi * real_of_int (- (- N + 1 + 2 * int i)) / real_of_int (2 * N) =
          - (pi * real_of_int (- N + 1 + 2 * int i) / real_of_int (2 * N))"
      by (simp only: of_int_minus mult_minus_right minus_divide_left)
    then show ?thesis
      by (simp only: cis_cnj complex_cnj_minus)
  qed
  also have "\<dots> = map cnj p0 ! i"
    using i by (simp add: p0_def)
  finally show "map cnj p0 ! i = rev p0 ! i" by simp
qed

lemma butter_angles_cos_pos:
  fixes N :: int
  assumes "j < nat N"
  shows "0 < cos (pi * real_of_int (- N + 1 + 2 * int j) / real_of_int (2 * N))"
proof (rule cos_gt_zero_pi)
  from assms have Npos: "0 < N" by simp
  let ?m = "- N + 1 + 2 * int j"
  have m: "- N < ?m" "?m < N" using assms by simp_all
  have N2: "0 < real_of_int (2 * N)" using Npos by simp
  have "pi * real_of_int ?m / real_of_int (2 * N) < pi * real_of_int N / real_of_int (2 * N)"
    using m(2) N2 by (intro divide_strict_right_mono mult_strict_left_mono) simp_all
  also have "\<dots> = pi / 2" using Npos by simp
  finally show "pi * real_of_int ?m / real_of_int (2 * N) < pi / 2" .
  have "pi * real_of_int (- N) / real_of_int (2 * N) < pi * real_of_int ?m / real_of_int (2 * N)"
    using m(1) N2 by (intro divide_strict_right_mono mult_strict_left_mono) simp_all
  moreover have "pi * real_of_int (- N) / real_of_int (2 * N) = - (pi / 2)" using Npos by simp
  ultimately show "- (pi / 2) < pi * real_of_int ?m / real_of_int (2 * N)" by simp
qed


subsection \<open>The Butterworth design on valid parameters\<close>

lemma butter_unfold:
  assumes "0 \<le> N" "0 < Wn" "Wn < 1"
  shows "\<exists>b. length b = nat N + 1 \<and>
           butter N Wn bt =
             Inr (b, map Re (np_poly
                   (map (\<lambda>x. (4 + x) / (4 - x))
                      (map (\<lambda>x. case bt of lowpass \<Rightarrow> complex_of_real (4 * tan (pi * Wn / 2)) * x
                                  | highpass \<Rightarrow> complex_of_real (4 * tan (pi * Wn / 2)) / x)
                         (map (\<lambda>j. - cis (pi * real_of_int (- N + 1 + 2 * int j) / real_of_int (2 * N)))
                            [0..<nat N])))))"
proof (cases bt)
  case lowpass
  show ?thesis
    using assms unfolding lowpass
    by (simp add: butter_def buttap_def lp2lp_zpk_def bilinear_zpk_def zpk2tf_def Let_def o_def
          np_poly_length)
next
  case highpass
  show ?thesis
    using assms unfolding highpass
    by (simp add: butter_def buttap_def lp2hp_zpk_def bilinear_zpk_def zpk2tf_def Let_def o_def
          np_poly_length)
qed


lemma bilinear_pole_ne_1:
  fixes s :: complex
  assumes "Re s < 0"
  shows "1 - (4 + s) / (4 - s) \<noteq> 0"
proof
  assume eq: "1 - (4 + s) / (4 - s) = 0"
  have d: "4 - s \<noteq> 0"
  proof
    assume "4 - s = 0"
    then have "s = 4" by simp
    with assms show False by simp
  qed
  from eq have "(4 + s) / (4 - s) = 1" by simp
  with d have "4 + s = 4 - s" by (simp add: divide_eq_1_iff)
  then have "s = 0" by simp
  with assms show False by simp
qed

lemma hp_pole_Re: "Re (complex_of_real w / (- cis t)) = - (w * cos t)"
proof -
  have "complex_of_real w / (- cis t) = - (complex_of_real w * cis (- t))"
    by (simp add: divide_inverse cis_inverse)
  then show ?thesis by simp
qed

lemma butter_props:
  assumes N: "0 \<le> N" and Wn: "0 < Wn" "Wn < 1"
  shows "\<exists>b a. butter N Wn bt = Inr (b, a) \<and> length b = nat N + 1 \<and>
           length a = nat N + 1 \<and> hd a = 1 \<and> sum_list a \<noteq> 0"
proof -
  define w where "w = 4 * tan (pi * Wn / 2)"
  define f where "f = (\<lambda>j. - cis (pi * real_of_int (- N + 1 + 2 * int j) / real_of_int (2 * N)))"
  define h where "h = (\<lambda>x. case bt of lowpass \<Rightarrow> complex_of_real w * x
                                   | highpass \<Rightarrow> complex_of_real w / x)"
  define g where "g = (\<lambda>x::complex. (4 + x) / (4 - x))"
  define P0 where "P0 = map f [0..<nat N]"
  define P2 where "P2 = map g (map h P0)"
  define Q where "Q = map (\<lambda>r. 1 - r) P2"
  from butter_unfold[OF assms, of bt] obtain b where
    b: "length b = nat N + 1" and but: "butter N Wn bt = Inr (b, map Re (np_poly P2))"
    unfolding P2_def P0_def g_def h_def f_def w_def by blast
  have wpos: "0 < w"
    unfolding w_def using Wn by (intro mult_pos_pos tan_gt_zero) simp_all
  have sym0: "map cnj P0 = rev P0"
    unfolding P0_def f_def by (rule butter_angles_symmetric)
  have hc: "cnj (h x) = h (cnj x)" for x
    by (cases bt) (simp_all add: h_def)
  have gc: "cnj (g x) = g (cnj x)" for x
    by (simp add: g_def)
  have symQ: "map cnj Q = rev Q"
    unfolding Q_def P2_def
    by (intro conj_symmetric_map sym0 hc gc) simp
  have real: "Im (prod_list Q) = 0"
    by (rule conj_symmetric_prod_real[OF symQ])
  have Re_neg: "Re (h (f j)) < 0" if "j < nat N" for j
  proof -
    have c: "0 < cos (pi * real_of_int (- N + 1 + 2 * int j) / real_of_int (2 * N))"
      by (rule butter_angles_cos_pos[OF that])
    have "Re (h (f j)) =
          - (w * cos (pi * real_of_int (- N + 1 + 2 * int j) / real_of_int (2 * N)))"
    proof (cases bt)
      case lowpass
      then show ?thesis by (simp add: h_def f_def)
    next
      case highpass
      then show ?thesis by (simp only: h_def f_def btype.case hp_pole_Re)
    qed
    with c wpos show ?thesis by simp
  qed
  have nz: "0 \<notin> set Q"
  proof
    assume "0 \<in> set Q"
    then obtain j where j: "j < nat N" and z: "1 - g (h (f j)) = 0"
      unfolding Q_def P2_def P0_def by auto
    from bilinear_pole_ne_1[OF Re_neg[OF j]] z show False
      by (simp add: g_def)
  qed
  then have "prod_list Q \<noteq> 0"
    by (simp add: prod_list_zero_iff)
  with real have "Re (prod_list Q) \<noteq> 0"
    by (simp add: complex_eq_iff)
  then have s: "sum_list (map Re (np_poly P2)) \<noteq> 0"
    by (simp add: sum_list_map_Re np_poly_sum Q_def)
  have l: "length (map Re (np_poly P2)) = nat N + 1"
    by (simp add: np_poly_length P2_def P0_def)
  show ?thesis
    using but b l s hd_map_Re_np_poly[of P2] by blast
qed

subsection \<open>When zero-phase filtering returns\<close>

lemma sum_list_pad_to: "sum_list (pad_to n c) = sum_list c"
  by (simp add: pad_to_def sum_list_replicate)

lemma sum_list_map_divide: "sum_list (map (\<lambda>v. v / c) xs) = sum_list xs / (c::real)"
  by (induction xs) (simp_all add: add_divide_distrib)

lemma lfilter_zi_returns:
  assumes "a \<noteq> []" "hd a \<noteq> 0" "2 \<le> max (length a) (length b)" "sum_list a \<noteq> 0"
  shows "\<exists>zi. lfilter_zi b a = Inr zi \<and> length zi = max (length a) (length b) - 1"
proof -
  have s: "strip_zeros a = a"
    by (rule strip_zeros_id[OF assms(1,2)])
  have "sum_list (map (\<lambda>v. v / hd a) (pad_to (max (length a) (length b)) a)) \<noteq> 0"
    using assms(2,4) by (simp add: sum_list_map_divide sum_list_pad_to)
  moreover have "\<not> max (length a) (length b) < 2"
    using assms(3) by linarith
  ultimately show ?thesis
    using assms(1,2) unfolding lfilter_zi_def s Let_def by simp
qed

lemma filtfilt_returns:
  assumes a: "a \<noteq> []" "hd a \<noteq> 0" "2 \<le> max (length a) (length b)" "sum_list a \<noteq> 0"
    and len: "max (length a) (length b) * 3 < length x"
  shows "\<exists>y. filtfilt b a x = Inr y \<and> length y = length x"
proof -
  let ?edge = "max (length a) (length b) * 3"
  from lfilter_zi_returns[OF a] obtain zi where
    zi: "lfilter_zi b a = Inr zi" and zl: "length zi = max (length a) (length b) - 1"
    by blast
  let ?ext = "odd_ext x ?edge"
  have "\<exists>r. lfilter b a ?ext (map (\<lambda>v. v * hd ?ext) zi) = Inr r"
    unfolding lfilter_Inr_iff using a(1,2) zl by simp
  then obtain y1 zf1 where f1: "lfilter b a ?ext (map (\<lambda>v. v * hd ?ext) zi) = Inr (y1, zf1)"
    by force
  have "\<exists>r. lfilter b a (rev y1) (map (\<lambda>v. v * last y1) zi) = Inr r"
    unfolding lfilter_Inr_iff using a(1,2) zl by simp
  then obtain y2 zf2 where f2: "lfilter b a (rev y1) (map (\<lambda>v. v * last y1) zi) = Inr (y2, zf2)"
    by force
  have "filtfilt b a x = Inr (drop ?edge (take (length (rev y2) - ?edge) (rev y2)))"
    using len by (simp add: filtfilt_def Let_def zi f1 f2)
  then show ?thesis
    using filtfilt_length by blast
qed

subsection \<open>Zero input\<close>

lemma lfilter_run_zero:
  assumes "\<forall>v \<in> set z. v = 0" "\<forall>v \<in> set x. v = 0" "lfilter_run b a z x = (y, zf)"
  shows "(\<forall>v \<in> set y. v = 0) \<and> (\<forall>v \<in> set zf. v = 0)"
  using assms
proof (induction x arbitrary: z y zf)
  case Nil
  then show ?case by simp
next
  case (Cons x0 xs)
  from Cons.prems(2) have x0: "x0 = 0" and xs: "\<forall>v \<in> set xs. v = 0" by simp_all
  have y0: "hd b * x0 + (case z of [] \<Rightarrow> 0 | z0 # _ \<Rightarrow> z0) = 0"
    using Cons.prems(1) x0 by (cases z) simp_all
  define z' where "z' = map (\<lambda>((bi, ai), zi). bi * x0 + zi - ai * 0)
                          (zip (zip (tl b) (tl a)) (tl z @ [0]))"
  have tz: "\<forall>v \<in> set (tl z @ [0]). v = 0"
    using Cons.prems(1) by (cases z) simp_all
  have z'0: "\<forall>v \<in> set z'. v = 0"
  proof
    fix v assume "v \<in> set z'"
    then obtain bi ai zi where m: "((bi, ai), zi) \<in> set (zip (zip (tl b) (tl a)) (tl z @ [0]))"
      and v: "v = bi * x0 + zi - ai * 0"
      unfolding z'_def by auto
    from m have "zi \<in> set (tl z @ [0])" by (rule set_zip_rightD)
    with tz have "zi = 0" by blast
    with v x0 show "v = 0" by simp
  qed
  obtain ys zf' where r: "lfilter_run b a z' xs = (ys, zf')"
    by (cases "lfilter_run b a z' xs")
  from Cons.prems(3) have "y = 0 # ys" "zf = zf'"
    using y0 r by (simp_all add: Let_def z'_def)
  with Cons.IH[OF z'0 xs r] show ?case by simp
qed

lemma all_zero_replicate: "(\<forall>v \<in> set xs. v = (0::real)) \<longleftrightarrow> xs = replicate (length xs) 0"
  by (induction xs) auto

lemma filtfilt_zero:
  assumes "filtfilt b a (replicate n 0) = Inr y"
  shows "y = replicate n 0"
proof -
  let ?x = "replicate n (0::real)"
  let ?edge = "max (length a) (length b) * 3"
  from assms have len: "?edge < n"
    by (auto simp: filtfilt_def Let_def split: if_splits)
  from assms len obtain zi y1 zf1 y2 zf2 where
    f1: "lfilter b a (odd_ext ?x ?edge) (map (\<lambda>v. v * hd (odd_ext ?x ?edge)) zi) = Inr (y1, zf1)"
    and f2: "lfilter b a (rev y1) (map (\<lambda>v. v * last y1) zi) = Inr (y2, zf2)"
    and y: "y = drop ?edge (take (length (rev y2) - ?edge) (rev y2))"
    by (auto simp: filtfilt_def Let_def split: if_splits sum.splits prod.splits)
  have ext0: "\<forall>v \<in> set (odd_ext ?x ?edge). v = 0"
    using len by (auto simp: odd_ext_def Let_def dest: in_set_takeD in_set_dropD)
  have npos: "0 < n" using len by simp
  have h0: "hd (odd_ext ?x ?edge) = 0"
  proof -
    have "odd_ext ?x ?edge \<noteq> []" using npos by (simp add: odd_ext_def Let_def)
    then have "hd (odd_ext ?x ?edge) \<in> set (odd_ext ?x ?edge)" by simp
    with ext0 show ?thesis by blast
  qed
  from f1 have r1: "lfilter_run (map (\<lambda>v. v / hd a) (pad_to (max (length a) (length b)) b))
      (map (\<lambda>v. v / hd a) (pad_to (max (length a) (length b)) a))
      (map (\<lambda>v. v * hd (odd_ext ?x ?edge)) zi) (odd_ext ?x ?edge) = (y1, zf1)"
    by (auto simp: lfilter_def Let_def split: if_splits)
  have y1z: "\<forall>v \<in> set y1. v = 0"
    using lfilter_run_zero[OF _ ext0 r1] h0 by simp
  have l0: "last y1 = 0"
  proof (cases "y1 = []")
    case True
    from lfilter_length[OF f1] True len show ?thesis
      using odd_ext_length[of ?edge ?x] by simp
  next
    case False
    then have "last y1 \<in> set y1" by simp
    with y1z show ?thesis by blast
  qed
  from f2 have r2: "lfilter_run (map (\<lambda>v. v / hd a) (pad_to (max (length a) (length b)) b))
      (map (\<lambda>v. v / hd a) (pad_to (max (length a) (length b)) a))
      (map (\<lambda>v. v * last y1) zi) (rev y1) = (y2, zf2)"
    by (auto simp: lfilter_def Let_def split: if_splits)
  have "\<forall>v \<in> set y2. v = 0"
    using lfilter_run_zero[OF _ _ r2] l0 y1z by simp
  then have "\<forall>v \<in> set y. v = 0"
    unfolding y by (auto dest!: in_set_dropD in_set_takeD)
  moreover have "length y = n"
    using filtfilt_length[OF assms] by simp
  ultimately show ?thesis
    using all_zero_replicate[of y] by simp
qed

subsection \<open>Which specifications the design code rejects\<close>

lemma iirnotch_Inl:
  "iirnotch w0 Q = Inl e \<longleftrightarrow>
     (e = ValueError \<and> (1 < w0 \<or> w0 < 0)) \<or>
     (e = ZeroDivisionError \<and> 0 \<le> w0 \<and> w0 \<le> 1 \<and> Q = 0)"
  by (auto simp: iirnotch_def py_div_def Let_def)

lemma butter_Inl:
  "butter N Wn bt = Inl e \<longleftrightarrow> e = ValueError \<and> (Wn \<le> 0 \<or> N < 0 \<or> 1 \<le> Wn)"
  by (auto simp: butter_def buttap_def Let_def split: prod.splits)

lemma notch_design_Inl:
  assumes "0 < fs"
  shows "notch_design fs f Q = Inl e \<longleftrightarrow>
     (e = ValueError \<and> (nyquist fs < f \<or> f < 0)) \<or>
     (e = ZeroDivisionError \<and> 0 \<le> f \<and> f \<le> nyquist fs \<and> Q = 0)"
proof -
  have n: "0 < nyquist fs" using assms by (simp add: nyquist_def)
  then have "notch_design fs f Q = iirnotch (f / nyquist fs) Q"
    by (simp add: notch_design_def py_div_def)
  then show ?thesis
    using n by (simp add: iirnotch_Inl pos_less_divide_eq pos_divide_less_eq
        pos_le_divide_eq pos_divide_le_eq)
qed

lemma high_pass_design_Inl:
  assumes "0 < fs"
  shows "high_pass_design fs c N = Inl e \<longleftrightarrow>
     e = ValueError \<and> (c \<le> 0 \<or> nyquist fs \<le> c \<or> N < 0)"
proof -
  have n: "0 < nyquist fs" using assms by (simp add: nyquist_def)
  then have "high_pass_design fs c N = butter N (c / nyquist fs) highpass"
    by (simp add: high_pass_design_def py_div_def)
  then show ?thesis
    using n by (auto simp: butter_Inl pos_le_divide_eq pos_divide_le_eq)
qed

lemma low_pass_design_Inl:
  assumes "0 < fs"
  shows "low_pass_design fs c N = Inl e \<longleftrightarrow>
     e = ValueError \<and> (c \<le> 0 \<or> nyquist fs \<le> c \<or> N < 0)"
proof -
  have n: "0 < nyquist fs" using assms by (simp add: nyquist_def)
  then have "low_pass_design fs c N = butter N (c / nyquist fs) lowpass"
    by (simp add: low_pass_design_def py_div_def)
  then show ?thesis
    using n by (auto simp: butter_Inl pos_le_divide_eq pos_divide_le_eq)
qed

text \<open>
  Claim C5 fails on the code.  Three specifications outside the specification's
  invariant are designed without error: a notch centred at 0 Hz (the library's range
  check admits the end points), a high-pass of order 0 (the library's pass-through
  filter), and a notch with a negative quality factor (never checked).
\<close>

theorem design_accepts_invalid_specs:
  "\<not> spec_valid 1000 (Notch 0 30) \<and>
   design 1000 (Notch 0 30) = Inr ([1, - 2, 1], [1, - 2, 1]) \<and>
   \<not> spec_valid 1000 (HighPass 0.5 0) \<and>
   design 1000 (HighPass 0.5 0) = Inr ([1], [1]) \<and>
   \<not> spec_valid 1000 (Notch 50 (- 30)) \<and>
   \<not> isl (design 1000 (Notch 50 (- 30)))"
proof -
  have a: "design 1000 (Notch 0 30) = Inr ([1, - 2, 1], [1, - 2, 1])"
    by (simp add: notch_design_def nyquist_def py_div_def iirnotch_def Let_def)
  have b: "design 1000 (HighPass 0.5 0) = Inr ([1], [1])"
    by (simp add: high_pass_design_def nyquist_def py_div_def butter_def buttap_def
        lp2hp_zpk_def bilinear_zpk_def zpk2tf_def np_poly_def Let_def)
  have c: "\<not> isl (design 1000 (Notch 50 (- 30)))"
    by (simp add: notch_design_def nyquist_def py_div_def iirnotch_def Let_def)
  show ?thesis
    using a b c by simp
qed

lemma design_Inl_iff:
  assumes "0 < fs"
  shows "(\<exists>e. design fs spec = Inl e) \<longleftrightarrow> \<not> design_accepts fs spec"
proof (cases spec)
  case (Notch f q)
  have "(\<exists>e. notch_design fs f q = Inl e) \<longleftrightarrow>
          (nyquist fs < f \<or> f < 0) \<or> (0 \<le> f \<and> f \<le> nyquist fs \<and> q = 0)"
    by (simp add: notch_design_Inl[OF assms] ex_disj_distrib)
  then show ?thesis
    unfolding Notch by (simp add: not_le not_less) linarith
next
  case (HighPass c n)
  have "(\<exists>e. high_pass_design fs c n = Inl e) \<longleftrightarrow> c \<le> 0 \<or> nyquist fs \<le> c \<or> n < 0"
    by (simp add: high_pass_design_Inl[OF assms])
  then show ?thesis
    unfolding HighPass by (simp add: not_le not_less)
next
  case (LowPass c n)
  have "(\<exists>e. low_pass_design fs c n = Inl e) \<longleftrightarrow> c \<le> 0 \<or> nyquist fs \<le> c \<or> n < 0"
    by (simp add: low_pass_design_Inl[OF assms])
  then show ?thesis
    unfolding LowPass by (simp add: not_le not_less)
qed

lemma spec_valid_accepted: "spec_valid fs spec \<Longrightarrow> design_accepts fs spec"
  by (cases spec) simp_all

lemma design_error_kind:
  assumes "0 < fs" "design fs spec = Inl e"
  shows "e = (case spec of
                Notch f q \<Rightarrow> if 0 \<le> f \<and> f \<le> nyquist fs then ZeroDivisionError else ValueError
              | HighPass c n \<Rightarrow> ValueError
              | LowPass c n \<Rightarrow> ValueError)"
proof (cases spec)
  case (Notch f q)
  with assms(2) have "notch_design fs f q = Inl e" by simp
  then show ?thesis
    unfolding Notch notch_design_Inl[OF assms(1)] by (simp add: not_le) linarith
next
  case (HighPass c n)
  with assms(2) have "high_pass_design fs c n = Inl e" by simp
  then show ?thesis
    unfolding HighPass high_pass_design_Inl[OF assms(1)] by simp
next
  case (LowPass c n)
  with assms(2) have "low_pass_design fs c n = Inl e" by simp
  then show ?thesis
    unfolding LowPass low_pass_design_Inl[OF assms(1)] by simp
qed

text \<open>
  Claim C5 as amended.  For a positive sample rate the design fails exactly on the
  specifications the code does not accept: a high-pass or low-pass whose cutoff is not
  strictly within \<open>(0, fs / 2)\<close> or whose order is negative (ValueError), a notch whose
  centre frequency is outside the closed interval \<open>[0, fs / 2]\<close> (ValueError) or whose
  quality factor is zero (ZeroDivisionError).  Every specification that satisfies the
  invariant is accepted.  At the instance below, \<open>HighPass 600 4\<close> at 1000 Hz fails
  with ValueError.
\<close>

theorem design_failure_cases:
  assumes "0 < fs"
  shows "((\<exists>e. design fs spec = Inl e) \<longleftrightarrow> \<not> design_accepts fs spec) \<and>
         (spec_valid fs spec \<longrightarrow> design_accepts fs spec) \<and>
         (\<forall>e. design fs spec = Inl e \<longrightarrow>
            e = (case spec of
                   Notch f q \<Rightarrow>
                     if 0 \<le> f \<and> f \<le> nyquist fs then ZeroDivisionError else ValueError
                 | HighPass c n \<Rightarrow> ValueError
                 | LowPass c n \<Rightarrow> ValueError))"
  using design_Inl_iff[OF assms, of spec] spec_valid_accepted[of fs spec]
    design_error_kind[OF assms, of spec]
  by blast

theorem design_failure_cases_witness:
  "design 1000 (HighPass 600 4) = Inl ValueError \<and>
   design 1000 (Notch 50 0) = Inl ZeroDivisionError \<and>
   \<not> isl (design 1000 (LowPass 10 4))"
proof -
  have fs: "(0::real) < 1000" by simp
  have n: "nyquist 1000 = 500" by (simp add: nyquist_def)
  note hp = design_failure_cases[OF fs, of "HighPass 600 4"]
  note nt = design_failure_cases[OF fs, of "Notch 50 0"]
  note lp = design_failure_cases[OF fs, of "LowPass 10 4"]
  have "\<not> design_accepts 1000 (HighPass 600 4)" by (simp add: n)
  with hp obtain e1 where e1: "design 1000 (HighPass 600 4) = Inl e1" by blast
  with hp have "e1 = ValueError" by simp
  have "\<not> design_accepts 1000 (Notch 50 0)" by simp
  with nt obtain e2 where e2: "design 1000 (Notch 50 0) = Inl e2" by blast
  with nt have "e2 = ZeroDivisionError" by (simp add: n)
  have "design_accepts 1000 (LowPass 10 4)" by (simp add: n)
  with lp have "\<not> (\<exists>e. design 1000 (LowPass 10 4) = Inl e)" by blast
  then have "\<not> isl (design 1000 (LowPass 10 4))"
    by (cases "design 1000 (LowPass 10 4)") simp_all
  with e1 e2 \<open>e1 = ValueError\<close> \<open>e2 = ZeroDivisionError\<close> show ?thesis by simp
qed

subsection \<open>The three filters on valid parameters\<close>

lemma notch_design_props:
  assumes fs: "0 < fs" and f: "0 < f" "f < nyquist fs" and q: "q \<noteq> 0"
    and g: "tan (f / nyquist fs / q * pi / 2) \<noteq> - 1"
  shows "\<exists>b a. notch_design fs f q = Inr (b, a) \<and> length b = 3 \<and> length a = 3 \<and>
           hd a = 1 \<and> sum_list a \<noteq> 0"
proof -
  define w0 where "w0 = f / nyquist fs"
  define gain where "gain = 1 / (1 + tan (w0 / q * pi / 2))"
  have n: "0 < nyquist fs" using fs by (simp add: nyquist_def)
  have w: "0 < w0" "w0 < 1" using f n by (simp_all add: w0_def)
  have gain: "gain \<noteq> 0"
    using g unfolding gain_def w0_def by (simp add: add_eq_0_iff)
  have "cos (w0 * pi) < cos 0"
    using w by (intro cos_monotone_0_pi) simp_all
  then have c: "cos (w0 * pi) \<noteq> 1" by simp
  have "2 * gain * (1 - cos (w0 * pi)) \<noteq> 0"
    using gain c by simp
  then have s: "sum_list [1, - 2 * gain * cos (w0 * pi), 2 * gain - 1] \<noteq> 0"
    by (simp add: algebra_simps)
  have "notch_design fs f q =
          Inr (map (\<lambda>c. gain * c) [1, - 2 * cos (w0 * pi), 1],
               [1, - 2 * gain * cos (w0 * pi), 2 * gain - 1])"
    using n w q by (simp add: notch_design_def py_div_def iirnotch_def Let_def w0_def gain_def)
  with s show ?thesis by force
qed

lemma notch_filter_returns:
  assumes "0 < fs" "0 < f" "f < nyquist fs" "q \<noteq> 0"
    "tan (f / nyquist fs / q * pi / 2) \<noteq> - 1" "9 < length x"
  shows "\<exists>y. notch_filter fs x f q = Inr y \<and> length y = length x"
proof -
  from notch_design_props[OF assms(1-5)] obtain b a where
    d: "notch_design fs f q = Inr (b, a)" and l: "length b = 3" "length a = 3"
    and h: "hd a = 1" and s: "sum_list a \<noteq> 0"
    by blast
  have "\<exists>y. filtfilt b a x = Inr y \<and> length y = length x"
    using l h s assms(6) by (intro filtfilt_returns) auto
  then show ?thesis
    by (simp add: notch_filter_def d)
qed

lemma butter_filtfilt_returns:
  assumes "1 \<le> N" "0 < Wn" "Wn < 1" "3 * (nat N + 1) < length x"
  shows "\<exists>b a y. butter N Wn bt = Inr (b, a) \<and> filtfilt b a x = Inr y \<and> length y = length x"
proof -
  from assms(1) have N0: "0 \<le> N" by simp
  from butter_props[OF N0 assms(2,3), of bt] obtain b a where
    d: "butter N Wn bt = Inr (b, a)" and l: "length b = nat N + 1" "length a = nat N + 1"
    and h: "hd a = 1" and s: "sum_list a \<noteq> 0"
    by blast
  have "\<exists>y. filtfilt b a x = Inr y \<and> length y = length x"
    using l h s assms(1,4) by (intro filtfilt_returns) auto
  with d show ?thesis by blast
qed

lemma high_pass_filter_returns:
  assumes "0 < fs" "0 < c" "c < nyquist fs" "1 \<le> n" "3 * (nat n + 1) < length x"
  shows "\<exists>y. high_pass_filter fs x c n = Inr y \<and> length y = length x"
proof -
  have ny: "0 < nyquist fs" using assms(1) by (simp add: nyquist_def)
  have w: "0 < c / nyquist fs" "c / nyquist fs < 1" using assms(2,3) ny by simp_all
  from butter_filtfilt_returns[OF assms(4) w assms(5), of highpass]
  show ?thesis
    using ny by (auto simp: high_pass_filter_def high_pass_design_def py_div_def)
qed

lemma low_pass_filter_returns:
  assumes "0 < fs" "0 < c" "c < nyquist fs" "1 \<le> n" "3 * (nat n + 1) < length x"
  shows "\<exists>y. low_pass_filter fs x c n = Inr y \<and> length y = length x"
proof -
  have ny: "0 < nyquist fs" using assms(1) by (simp add: nyquist_def)
  have w: "0 < c / nyquist fs" "c / nyquist fs < 1" using assms(2,3) ny by simp_all
  from butter_filtfilt_returns[OF assms(4) w assms(5), of lowpass]
  show ?thesis
    using ny by (auto simp: low_pass_filter_def low_pass_design_def py_div_def)
qed


lemma notch_default_gain:
  assumes "100 < fs"
  shows "tan (50 / nyquist fs / 30 * pi / 2) \<noteq> - 1"
proof -
  have n: "50 < nyquist fs" using assms by (simp add: nyquist_def)
  then have r: "0 < 50 / nyquist fs" "50 / nyquist fs < 1" by simp_all
  have "0 < 50 / nyquist fs / 30 * pi / 2"
    using r by simp
  moreover have "50 / nyquist fs / 30 * pi / 2 < pi / 2"
  proof -
    have "50 / nyquist fs / 30 < 1" using r by simp
    then have "50 / nyquist fs / 30 * pi < 1 * pi"
      by (intro mult_strict_right_mono) simp_all
    then show ?thesis by simp
  qed
  ultimately have "0 < tan (50 / nyquist fs / 30 * pi / 2)"
    by (rule tan_gt_zero)
  then show ?thesis by simp
qed

text \<open>
  Claim C7.  Whenever zero-phase application returns, its output has exactly the length
  of its input.  It does return for every coefficient pair with a non-zero leading
  denominator coefficient, at least two taps and no pole at 1, on every buffer longer
  than the pad length, three times the number of taps; in particular for the notch
  designed from a valid specification (on buffers longer than 9; in exact arithmetic
  the notch gain \<open>1 / (1 + beta)\<close> needs \<open>beta\<close> different from -1) and for the
  Butterworth high-pass and low-pass designed from a valid specification (on buffers
  longer than \<open>3 (order + 1)\<close>).
\<close>

theorem zero_phase_preserves_length:
  "(\<forall>y. filtfilt b a x = Inr y \<longrightarrow> length y = length x) \<and>
   (a \<noteq> [] \<and> hd a \<noteq> 0 \<and> sum_list a \<noteq> 0 \<and> 2 \<le> max (length a) (length b) \<and>
    max (length a) (length b) * 3 < length x \<longrightarrow>
      (\<exists>y. filtfilt b a x = Inr y \<and> length y = length x)) \<and>
   (0 < fs \<and> 0 < f \<and> f < nyquist fs \<and> 0 < q \<and>
    tan (f / nyquist fs / q * pi / 2) \<noteq> - 1 \<and> 9 < length x \<longrightarrow>
      (\<exists>y. notch_filter fs x f q = Inr y \<and> length y = length x)) \<and>
   (0 < fs \<and> 0 < c \<and> c < nyquist fs \<and> 1 \<le> n \<and> 3 * (nat n + 1) < length x \<longrightarrow>
      (\<exists>y. high_pass_filter fs x c n = Inr y \<and> length y = length x) \<and>
      (\<exists>y. low_pass_filter fs x c n = Inr y \<and> length y = length x))"
proof (intro conjI allI impI)
  fix y assume "filtfilt b a x = Inr y"
  then show "length y = length x" by (rule filtfilt_length)
next
  assume "a \<noteq> [] \<and> hd a \<noteq> 0 \<and> sum_list a \<noteq> 0 \<and> 2 \<le> max (length a) (length b) \<and>
    max (length a) (length b) * 3 < length x"
  then show "\<exists>y. filtfilt b a x = Inr y \<and> length y = length x"
    by (intro filtfilt_returns) simp_all
next
  assume h: "0 < fs \<and> 0 < f \<and> f < nyquist fs \<and> 0 < q \<and>
    tan (f / nyquist fs / q * pi / 2) \<noteq> - 1 \<and> 9 < length x"
  then have "q \<noteq> 0" by simp
  with h show "\<exists>y. notch_filter fs x f q = Inr y \<and> length y = length x"
    by (intro notch_filter_returns) simp_all
next
  assume "0 < fs \<and> 0 < c \<and> c < nyquist fs \<and> 1 \<le> n \<and> 3 * (nat n + 1) < length x"
  then show "\<exists>y. high_pass_filter fs x c n = Inr y \<and> length y = length x"
    by (intro high_pass_filter_returns) simp_all
next
  assume "0 < fs \<and> 0 < c \<and> c < nyquist fs \<and> 1 \<le> n \<and> 3 * (nat n + 1) < length x"
  then show "\<exists>y. low_pass_filter fs x c n = Inr y \<and> length y = length x"
    by (intro low_pass_filter_returns) simp_all
qed

theorem zero_phase_preserves_length_witness:
  "(\<exists>y. notch_filter 1000 (replicate 16 1) 50 30 = Inr y \<and> length y = 16) \<and>
   (\<exists>y. high_pass_filter 1000 (replicate 16 1) 10 4 = Inr y \<and> length y = 16) \<and>
   (\<exists>y. low_pass_filter 1000 (replicate 16 1) 10 4 = Inr y \<and> length y = 16)"
proof -
  have n: "nyquist 1000 = 500" by (simp add: nyquist_def)
  have g: "tan (50 / nyquist 1000 / 30 * pi / 2) \<noteq> - 1"
    by (rule notch_default_gain) simp
  have len: "length (replicate 16 (1::real)) = 16" by simp
  note t = zero_phase_preserves_length[of "[]" "[]" "replicate 16 1" 1000 50 30 10 4,
      unfolded len]
  have h1: "(0::real) < 1000 \<and> (0::real) < 50 \<and> 50 < nyquist 1000 \<and> (0::real) < 30 \<and>
    tan (50 / nyquist 1000 / 30 * pi / 2) \<noteq> - 1 \<and> (9::nat) < 16"
    using g by (simp add: n)
  have h2: "(0::real) < 1000 \<and> (0::real) < 10 \<and> 10 < nyquist 1000 \<and> (1::int) \<le> 4 \<and>
    3 * (nat 4 + 1) < (16::nat)"
    by (simp add: n)
  from t h1 h2 show ?thesis by blast
qed

text \<open>
  Claim C8.  For every valid order, cutoff and sample rate, the high-pass filter applied
  to an all-zero buffer longer than the pad length \<open>3 (order + 1)\<close> returns the all-zero
  buffer of the same length.
\<close>

theorem high_pass_zero_buffer:
  assumes "0 < fs" "0 < c" "c < nyquist fs" "1 \<le> n" "3 * (nat n + 1) < m"
  shows "high_pass_filter fs (replicate m 0) c n = Inr (replicate m 0)"
proof -
  have len: "3 * (nat n + 1) < length (replicate m (0::real))"
    using assms(5) by simp
  from high_pass_filter_returns[OF assms(1-4) len] obtain y where
    y: "high_pass_filter fs (replicate m 0) c n = Inr y"
    by blast
  then obtain b a where "filtfilt b a (replicate m 0) = Inr y"
    by (auto simp: high_pass_filter_def split: sum.splits)
  then have "y = replicate m 0"
    by (rule filtfilt_zero)
  with y show ?thesis by simp
qed

theorem high_pass_zero_buffer_witness:
  "high_pass_filter 1000 (replicate 16 0) 0.5 4 = Inr (replicate 16 0)"
  using high_pass_zero_buffer[of 1000 "0.5" 4 16]
  by (simp add: nyquist_def)


subsection \<open>The cascade\<close>

lemma stage_notch:
  "(case design fs (Notch f q) of Inl e \<Rightarrow> Inl e | Inr c \<Rightarrow> apply_coeffs c x) =
     notch_filter fs x f q"
  by (simp add: notch_filter_def apply_coeffs_def split: sum.splits prod.splits)

lemma stage_high_pass:
  "(case design fs (HighPass c n) of Inl e \<Rightarrow> Inl e | Inr k \<Rightarrow> apply_coeffs k x) =
     high_pass_filter fs x c n"
  by (simp add: high_pass_filter_def apply_coeffs_def split: sum.splits prod.splits)

lemma stage_low_pass:
  "(case design fs (LowPass c n) of Inl e \<Rightarrow> Inl e | Inr k \<Rightarrow> apply_coeffs k x) =
     low_pass_filter fs x c n"
  by (simp add: low_pass_filter_def apply_coeffs_def split: sum.splits prod.splits)

lemma stage_Inr_iff:
  "(case design fs s of Inl e \<Rightarrow> Inl e | Inr c \<Rightarrow> apply_coeffs c x) = Inr y \<longleftrightarrow>
     (\<exists>c. design fs s = Inr c \<and> apply_coeffs c x = Inr y)"
  by (cases "design fs s") simp_all

lemma filter_cascade_run_stages:
  "filter_cascade fs noisy = run_stages fs [Notch 50 30, HighPass 0.5 4, LowPass 10 4] noisy"
proof -
  have "run_stages fs [Notch 50 30, HighPass 0.5 4, LowPass 10 4] noisy =
      (case (case design fs (Notch 50 30) of Inl e \<Rightarrow> Inl e | Inr c \<Rightarrow> apply_coeffs c noisy) of
         Inl e \<Rightarrow> Inl e
       | Inr step1 \<Rightarrow>
      (case (case design fs (HighPass 0.5 4) of Inl e \<Rightarrow> Inl e | Inr c \<Rightarrow> apply_coeffs c step1) of
         Inl e \<Rightarrow> Inl e
       | Inr step2 \<Rightarrow>
         (case design fs (LowPass 10 4) of Inl e \<Rightarrow> Inl e | Inr c \<Rightarrow> apply_coeffs c step2)))"
    by (simp split: sum.splits)
  then show ?thesis
    unfolding stage_notch stage_high_pass stage_low_pass filter_cascade_def by simp
qed

lemma filter_cascade_Inr_iff:
  "filter_cascade fs noisy = Inr out \<longleftrightarrow>
     (\<exists>c1 step1 c2 step2 c3.
        design fs (Notch 50 30) = Inr c1 \<and> apply_coeffs c1 noisy = Inr step1 \<and>
        design fs (HighPass 0.5 4) = Inr c2 \<and> apply_coeffs c2 step1 = Inr step2 \<and>
        design fs (LowPass 10 4) = Inr c3 \<and> apply_coeffs c3 step2 = Inr out)"
proof -
  have "filter_cascade fs noisy = Inr out \<longleftrightarrow>
      (\<exists>step1 step2. notch_filter fs noisy 50 30 = Inr step1 \<and>
         high_pass_filter fs step1 0.5 4 = Inr step2 \<and>
         low_pass_filter fs step2 10 4 = Inr out)"
    by (auto simp: filter_cascade_def split: sum.splits)
  also have "\<dots> \<longleftrightarrow>
      (\<exists>step1 step2.
         (\<exists>c1. design fs (Notch 50 30) = Inr c1 \<and> apply_coeffs c1 noisy = Inr step1) \<and>
         (\<exists>c2. design fs (HighPass 0.5 4) = Inr c2 \<and> apply_coeffs c2 step1 = Inr step2) \<and>
         (\<exists>c3. design fs (LowPass 10 4) = Inr c3 \<and> apply_coeffs c3 step2 = Inr out))"
    unfolding stage_notch[symmetric] stage_high_pass[symmetric] stage_low_pass[symmetric]
      stage_Inr_iff ..
  also have "\<dots> \<longleftrightarrow>
      (\<exists>c1 step1 c2 step2 c3.
        design fs (Notch 50 30) = Inr c1 \<and> apply_coeffs c1 noisy = Inr step1 \<and>
        design fs (HighPass 0.5 4) = Inr c2 \<and> apply_coeffs c2 step1 = Inr step2 \<and>
        design fs (LowPass 10 4) = Inr c3 \<and> apply_coeffs c3 step2 = Inr out)"
    by blast
  finally show ?thesis .
qed

lemma filter_cascade_returns:
  assumes "100 < fs" "15 < length noisy"
  shows "\<exists>out. filter_cascade fs noisy = Inr out \<and> length out = length noisy"
proof -
  have fs: "0 < fs" using assms(1) by simp
  have ny: "50 < nyquist fs" using assms(1) by (simp add: nyquist_def)
  have l9: "9 < length noisy" using assms(2) by simp
  from notch_filter_returns[OF fs _ ny _ notch_default_gain[OF assms(1)] l9]
  obtain s1 where s1: "notch_filter fs noisy 50 30 = Inr s1" "length s1 = length noisy"
    by auto
  have l1: "3 * (nat 4 + 1) < length s1" using s1(2) assms(2) by simp
  from high_pass_filter_returns[OF fs _ _ _ l1, of "0.5"] ny
  obtain s2 where s2: "high_pass_filter fs s1 0.5 4 = Inr s2" "length s2 = length s1"
    by auto
  have l2: "3 * (nat 4 + 1) < length s2" using s2(2) l1 by simp
  from low_pass_filter_returns[OF fs _ _ _ l2, of 10] ny
  obtain s3 where s3: "low_pass_filter fs s2 10 4 = Inr s3" "length s3 = length s2"
    by auto
  show ?thesis
    using s1 s2 s3 by (simp add: filter_cascade_def)
qed

text \<open>
  Claim C2.  The cascade of \<open>demonstrate_filtering\<close> is the run of exactly the three
  stages notch (50 Hz, Q 30), high-pass (0.5 Hz, order 4), low-pass (10 Hz, order 4) in
  this order: it returns \<open>out\<close> exactly when each stage designs its coefficients and
  applies them to the output of the stage before, and \<open>out\<close> is the output of the
  low-pass stage.  With a sample rate above 100 Hz and more than 15 samples it returns a
  buffer of the input's length.
\<close>

theorem cascade_notch_highpass_lowpass:
  "filter_cascade fs noisy = run_stages fs [Notch 50 30, HighPass 0.5 4, LowPass 10 4] noisy \<and>
   (\<forall>out. filter_cascade fs noisy = Inr out \<longleftrightarrow>
     (\<exists>c1 step1 c2 step2 c3.
        design fs (Notch 50 30) = Inr c1 \<and> apply_coeffs c1 noisy = Inr step1 \<and>
        design fs (HighPass 0.5 4) = Inr c2 \<and> apply_coeffs c2 step1 = Inr step2 \<and>
        design fs (LowPass 10 4) = Inr c3 \<and> apply_coeffs c3 step2 = Inr out)) \<and>
   (100 < fs \<and> 15 < length noisy \<longrightarrow>
     (\<exists>out. filter_cascade fs noisy = Inr out \<and> length out = length noisy))"
  using filter_cascade_run_stages[of fs noisy] filter_cascade_Inr_iff[of fs noisy]
    filter_cascade_returns[of fs noisy]
  by blast

theorem cascade_notch_highpass_lowpass_witness:
  "\<exists>out. filter_cascade 1000 (replicate 16 1) = Inr out \<and> length out = 16 \<and>
     run_stages 1000 [Notch 50 30, HighPass 0.5 4, LowPass 10 4] (replicate 16 1) = Inr out"
proof -
  note t = cascade_notch_highpass_lowpass[of 1000 "replicate 16 1"]
  have "(100::real) < 1000 \<and> 15 < length (replicate 16 (1::real))" by simp
  with t obtain out where "filter_cascade 1000 (replicate 16 1) = Inr out"
    and "length out = length (replicate 16 (1::real))"
    by blast
  moreover from t have "filter_cascade 1000 (replicate 16 1) =
      run_stages 1000 [Notch 50 30, HighPass 0.5 4, LowPass 10 4] (replicate 16 1)"
    by blast
  ultimately show ?thesis by simp
qed

subsection \<open>The demonstration runs to completion\<close>

lemma generate_ppg_signal_grid:
  assumes "2 \<le> py_int (fs * duration)"
  shows "\<exists>t noisy clean.
           generate_ppg_signal fs z duration = Inr (t, noisy, clean) \<and>
           length t = nat (py_int (fs * duration)) \<and>
           length noisy = length t \<and> length clean = length t \<and>
           (\<forall>i < length t.
              t ! i = real i * (duration / real_of_int (py_int (fs * duration) - 1)) \<and>
              clean ! i = clean_sample (t ! i))"
  using assms by (simp add: generate_ppg_signal_def linspace_def Let_def)

lemma demonstrate_filtering_returns:
  "\<exists>r. demonstrate_filtering fs_default z = Inr r \<and> length (demo_filtered r) = 10000"
proof -
  obtain t noisy clean where
    g: "generate_ppg_signal 1000 z 10 = Inr (t, noisy, clean)"
    and l: "length noisy = 10000" "length clean = 10000"
    by (simp add: generate_ppg_signal_default)
  from filter_cascade_returns[of 1000 noisy] l obtain flt where
    c: "filter_cascade 1000 noisy = Inr flt" and lf: "length flt = 10000"
    by auto
  have "noisy \<noteq> []" "flt \<noteq> []" using l lf by auto
  then obtain sn sf where
    s: "compute_spectrum 1000 noisy = Inr sn" "compute_spectrum 1000 flt = Inr sf"
    using compute_spectrum_eq[of noisy 1000] compute_spectrum_eq[of flt 1000] by auto
  have "\<not> (\<exists>e. snr_report clean noisy flt = Inl e)"
    unfolding snr_report_Inl using l lf by (simp add: broadcastable_def)
  then obtain r where r: "snr_report clean noisy flt = Inr r"
    by (cases "snr_report clean noisy flt") auto
  show ?thesis
    using g c s r lf by (simp add: demonstrate_filtering_def fs_default_def)
qed

subsection \<open>The initial state is a steady state of the step response\<close>

text \<open>
  The closed form used for \<open>lfilter_zi\<close> is consistent with the difference equations
  of \<open>lfilter\<close>: filtering one sample of the unit step from that state returns the
  state unchanged.
\<close>

lemma sum_list_take_Suc:
  "k < length xs \<Longrightarrow> sum_list (take (Suc k) xs) = sum_list (take k xs) + (xs ! k :: real)"
  by (simp add: take_Suc_conv_app_nth)

lemma lfilter_run_step_steady:
  fixes a' b' :: "real list"
  assumes la: "length a' = n" and lb: "length b' = n" and n: "2 \<le> n"
    and h: "hd a' = 1" and s: "sum_list a' \<noteq> 0"
  defines "B \<equiv> map2 (\<lambda>bi ai. bi - ai * hd b') (tl b') (tl a')"
  defines "zi0 \<equiv> sum_list B / sum_list a'"
  defines "zi \<equiv> map (\<lambda>k. sum_list (take (k + 1) a') * zi0 - sum_list (take k B)) [0..<n - 1]"
  shows "lfilter_run b' a' zi [1] = ([hd b' + zi0], zi)"
proof -
  have a0: "a' ! 0 = 1" using h la n by (cases a') simp_all
  have lB: "length B = n - 1" by (simp add: B_def la lb)
  have lz: "length zi = n - 1" by (simp add: zi_def)
  have Bn: "B ! i = b' ! Suc i - a' ! Suc i * hd b'" if "i < n - 1" for i
    using that la lb by (simp add: B_def nth_tl)
  have zn: "zi ! i = sum_list (take (Suc i) a') * zi0 - sum_list (take i B)" if "i < n - 1" for i
    using that by (simp add: zi_def)
  have z0: "zi ! 0 = zi0"
    using zn[of 0] n a0 la by (cases a') simp_all
  have zne: "zi \<noteq> []" using lz n by auto
  then have hz: "(case zi of [] \<Rightarrow> 0 | z0 # _ \<Rightarrow> z0) = zi0"
    using z0 by (cases zi) simp_all
  define y where "y = hd b' + zi0"
  define z' where "z' = map (\<lambda>((bi, ai), zv). bi * 1 + zv - ai * y)
                          (zip (zip (tl b') (tl a')) (tl zi @ [0]))"
  have lz': "length z' = n - 1"
    using lz zne by (simp add: z'_def la lb)
  have "z' = zi"
  proof (rule nth_equalityI)
    show "length z' = length zi" using lz lz' by simp
  next
    fix i assume "i < length z'"
    then have i: "i < n - 1" using lz' by simp
    have z'i: "z' ! i = b' ! Suc i + (tl zi @ [0]) ! i - a' ! Suc i * y"
      using i lz zne la lb by (simp add: z'_def nth_tl)
    have As: "sum_list (take (Suc (Suc i)) a') = sum_list (take (Suc i) a') + a' ! Suc i"
      using i la by (intro sum_list_take_Suc) simp
    have Cs: "sum_list (take (Suc i) B) = sum_list (take i B) + B ! i"
      using i lB by (intro sum_list_take_Suc) simp
    show "z' ! i = zi ! i"
    proof (cases "Suc i < n - 1")
      case True
      then have "i < length (tl zi)" using lz by simp
      then have "(tl zi @ [0]) ! i = zi ! Suc i"
        by (simp add: nth_append nth_tl)
      then show ?thesis
        unfolding z'i zn[OF i] zn[OF True] As Cs Bn[OF i] y_def
        by (simp add: algebra_simps)
    next
      case False
      with i have e: "Suc i = n - 1" by simp
      then have "length (tl zi) = i" using lz by simp
      then have t0: "(tl zi @ [0]) ! i = 0"
        by (metis nth_append_length)
      have "take (Suc (Suc i)) a' = a'" using e la by simp
      then have S: "sum_list a' = sum_list (take (Suc i) a') + a' ! Suc i"
        using As by simp
      have "take (Suc i) B = B" using e lB by simp
      then have T: "sum_list B = sum_list (take i B) + B ! i"
        using Cs by simp
      have "sum_list a' * zi0 = sum_list B"
        using s by (simp add: zi0_def)
      then have "(sum_list (take (Suc i) a') + a' ! Suc i) * zi0 = sum_list (take i B) + B ! i"
        using S T by simp
      then have "sum_list (take (Suc i) a') * zi0 - sum_list (take i B) = B ! i - a' ! Suc i * zi0"
        by (simp add: algebra_simps)
      then show ?thesis
        unfolding z'i zn[OF i] t0 Bn[OF i] y_def
        by (simp add: algebra_simps)
    qed
  qed
  then show ?thesis
    using hz by (simp add: Let_def y_def z'_def)
qed

lemma lfilter_zi_steady_state:
  assumes "lfilter_zi b a = Inr zi" and "a \<noteq> []" and "hd a \<noteq> 0"
  shows "\<exists>y. lfilter b a [1] zi = Inr ([y], zi)"
proof -
  let ?n = "max (length a) (length b)"
  let ?b = "map (\<lambda>v. v / hd a) (pad_to ?n b)"
  let ?a = "map (\<lambda>v. v / hd a) (pad_to ?n a)"
  have st: "strip_zeros a = a" by (rule strip_zeros_id[OF assms(2,3)])
  from assms(1) have n: "2 \<le> ?n" and s: "sum_list ?a \<noteq> 0"
    and zi: "zi = map (\<lambda>k. sum_list (take (k + 1) ?a) *
                        (sum_list (map2 (\<lambda>bi ai. bi - ai * hd ?b) (tl ?b) (tl ?a)) / sum_list ?a) -
                      sum_list (take k (map2 (\<lambda>bi ai. bi - ai * hd ?b) (tl ?b) (tl ?a))))
                 [0..<?n - 1]"
    unfolding lfilter_zi_def st Let_def by (auto split: if_splits)
  have la: "length ?a = ?n" and lb: "length ?b = ?n"
    by (simp_all add: pad_to_def)
  have h: "hd ?a = 1"
    using assms(2,3) by (cases a) (simp_all add: pad_to_def)
  have lz: "length zi = ?n - 1" by (subst zi) simp
  have "lfilter_run ?b ?a zi [1] =
      ([hd ?b + sum_list (map2 (\<lambda>bi ai. bi - ai * hd ?b) (tl ?b) (tl ?a)) / sum_list ?a], zi)"
    by (subst (1 2) zi) (rule lfilter_run_step_steady[OF la lb n h s])
  moreover have "lfilter b a [1] zi = Inr (lfilter_run ?b ?a zi [1])"
    using assms(2,3) lz by (simp add: lfilter_def Let_def del: lfilter_run.simps)
  ultimately show ?thesis
    by (simp only:) blast
qed

end
